theory Spec2Isabelle
  imports Main "HOL-Library.Sublist"
begin

section \<open>Strings of the host language\<close>

text \<open>
  The program is Python; its strings are sequences of code points. A \<^typ>\<open>char\<close> stands for
  a code point below 256, so the character classes below are those of Python restricted
  to that range. Python's integers are unbounded: \<^typ>\<open>int\<close>.
\<close>

definition is_space :: "char \<Rightarrow> bool" where
  \<comment> \<open>\<open>str.isspace\<close>, the set removed by \<open>str.strip()\<close> and matched by \<open>\s\<close>\<close>
  "is_space c \<longleftrightarrow>
     c \<in> set [CHR 0x09, CHR 0x0A, CHR 0x0B, CHR 0x0C, CHR 0x0D, CHR 0x1C, CHR 0x1D,
              CHR 0x1E, CHR 0x1F, CHR 0x20, CHR 0x85, CHR 0xA0]"

definition is_int_space :: "char \<Rightarrow> bool" where
  \<comment> \<open>the blanks that \<open>int(str)\<close> skips around a number\<close>
  "is_int_space c \<longleftrightarrow>
     c \<in> set [CHR 0x09, CHR 0x0A, CHR 0x0B, CHR 0x0C, CHR 0x0D, CHR 0x20, CHR 0x85, CHR 0xA0]"

definition is_digit :: "char \<Rightarrow> bool" where
  "is_digit c \<longleftrightarrow> c \<in> set ''0123456789''"

definition is_word :: "char \<Rightarrow> bool" where
  \<comment> \<open>the class \<open>\w\<close> of a \<open>str\<close> pattern: alphanumeric or underscore\<close>
  "is_word c \<longleftrightarrow>
     c \<in> set ''0123456789ABCDEFGHIJKLMNOPQRSTUVWXYZ_abcdefghijklmnopqrstuvwxyz'' \<or>
     (let n = (of_char c :: nat) in
        n \<in> set [170, 178, 179, 181, 185, 186, 188, 189, 190] \<or>
        (192 \<le> n \<and> n \<le> 214) \<or> (216 \<le> n \<and> n \<le> 246) \<or> 248 \<le> n)"

definition is_dot :: "char \<Rightarrow> bool" where
  \<comment> \<open>the pattern \<open>.\<close>: anything but a newline\<close>
  "is_dot c \<longleftrightarrow> c \<noteq> CHR 0x0A"

definition strip_with :: "(char \<Rightarrow> bool) \<Rightarrow> string \<Rightarrow> string" where
  \<comment> \<open>\<open>s.strip(chars)\<close>: every leading and every trailing character of the set goes\<close>
  "strip_with p s = rev (dropWhile p (rev (dropWhile p s)))"

definition strip :: "string \<Rightarrow> string" where
  "strip s = strip_with is_space s"

definition strip_dquote :: "string \<Rightarrow> string" where
  \<comment> \<open>\<open>s.strip('"')\<close>\<close>
  "strip_dquote s = strip_with (\<lambda>c. c = CHR 0x22) s"

definition strip_quotes :: "string \<Rightarrow> string" where
  \<comment> \<open>\<open>s.strip('"\'')\<close>\<close>
  "strip_quotes s = strip_with (\<lambda>c. c = CHR 0x22 \<or> c = CHR 0x27) s"

fun str_contains :: "string \<Rightarrow> string \<Rightarrow> bool" where
  \<comment> \<open>\<open>sub in s\<close>\<close>
  "str_contains sub [] = (sub = [])"
| "str_contains sub (c # s) = (prefix sub (c # s) \<or> str_contains sub s)"

function str_split_from :: "string \<Rightarrow> string \<Rightarrow> string \<Rightarrow> string list" where
  "str_split_from sep cur [] = [rev cur]"
| "str_split_from sep cur (c # s) =
     (if sep \<noteq> [] \<and> prefix sep (c # s)
      then rev cur # str_split_from sep [] (drop (length sep) (c # s))
      else str_split_from sep (c # cur) s)"
  by pat_completeness auto
termination
  by (relation "measure (\<lambda>(sep, cur, s). length s)") auto

definition str_split :: "string \<Rightarrow> string \<Rightarrow> string list" where
  \<comment> \<open>\<open>s.split(sep)\<close> for a non-empty separator: cut at each occurrence, left to right\<close>
  "str_split sep s = str_split_from sep [] s"

fun str_find :: "char \<Rightarrow> string \<Rightarrow> nat option" where
  \<comment> \<open>\<open>s.find(c)\<close>, with \<open>None\<close> for -1\<close>
  "str_find c [] = None"
| "str_find c (x # s) = (if x = c then Some 0 else map_option Suc (str_find c s))"

fun str_rfind :: "char \<Rightarrow> string \<Rightarrow> nat option" where
  \<comment> \<open>\<open>s.rfind(c)\<close>, with \<open>None\<close> for -1\<close>
  "str_rfind c [] = None"
| "str_rfind c (x # s) =
     (case str_rfind c s of Some i \<Rightarrow> Some (Suc i)
      | None \<Rightarrow> if x = c then Some 0 else None)"

definition str_slice :: "string \<Rightarrow> nat \<Rightarrow> nat \<Rightarrow> string" where
  \<comment> \<open>\<open>s[i:j]\<close> for non-negative bounds; empty when \<open>j \<le> i\<close>\<close>
  "str_slice s i j = take (j - i) (drop i s)"

fun valid_digits :: "string \<Rightarrow> bool" where
  \<comment> \<open>decimal digits, single underscores allowed between two digits\<close>
  "valid_digits [] = False"
| "valid_digits [c] = is_digit c"
| "valid_digits (c # d # s) =
     (is_digit c \<and> (if d = CHR ''_'' then valid_digits s else valid_digits (d # s)))"

definition digit_val :: "char \<Rightarrow> int" where
  "digit_val c = int (of_char c) - 48"

definition py_int :: "string \<Rightarrow> int option" where
  \<comment> \<open>\<open>int(s)\<close>; \<open>None\<close> is ValueError, also raised beyond the interpreter's
      default limit of 4300 digits\<close>
  "py_int s =
     (let t = strip_with is_int_space s;
          neg = (t \<noteq> [] \<and> hd t = CHR ''-'');
          body = (if t \<noteq> [] \<and> (hd t = CHR ''-'' \<or> hd t = CHR ''+'') then tl t else t)
      in if valid_digits body \<and> length (filter is_digit body) \<le> 4300
         then Some ((if neg then - 1 else 1) *
                    foldl (\<lambda>a c. 10 * a + digit_val c) 0 (filter is_digit body))
         else None)"

section \<open>Regular expressions\<close>

text \<open>
  Every pattern of the program is a sequence of literal characters, of character classes
  under a quantifier (greedy or lazy, each at most one capturing group) and of the end
  anchor. \<open>re.match\<close> anchors at the start of the string only. The matcher tries the
  repetition counts of a class in the order of the backtracking engine (longest first when
  greedy, shortest first when lazy) and returns the groups of the first overall match.
\<close>

datatype atom =
    Chr char
  | Cls "char \<Rightarrow> bool" nat bool bool  \<comment> \<open>class, least count, greedy, capturing\<close>
  | Eos  \<comment> \<open>\<open>$\<close>: at the end, or before a final newline\<close>

fun first_some :: "('a \<Rightarrow> 'b option) \<Rightarrow> 'a list \<Rightarrow> 'b option" where
  "first_some f [] = None"
| "first_some f (k # ks) = (case f k of Some y \<Rightarrow> Some y | None \<Rightarrow> first_some f ks)"

fun rx_match :: "atom list \<Rightarrow> string \<Rightarrow> string list option" where
  "rx_match [] s = Some []"
| "rx_match (Chr c # r) s =
     (case s of [] \<Rightarrow> None | x # xs \<Rightarrow> if x = c then rx_match r xs else None)"
| "rx_match (Eos # r) s = (if s = [] \<or> s = [CHR 0x0A] then rx_match r s else None)"
| "rx_match (Cls p mn greedy cap # r) s =
     (let n = length (takeWhile p s);
          ks = (if greedy then rev [mn..<Suc n] else [mn..<Suc n])
      in first_some
           (\<lambda>k. map_option (\<lambda>gs. if cap then take k s # gs else gs) (rx_match r (drop k s)))
           ks)"

definition lit :: "string \<Rightarrow> atom list" where
  "lit s = map Chr s"

section \<open>Values, relations and the store\<close>

datatype pyval = PInt int | PStr string

record relation =
  attributes :: "string list"
  tuples :: "pyval list list"

type_synonym store = "string \<rightharpoonup> relation"

datatype py_error = IndexError | TypeError | ValueError

fun list_index :: "'a list \<Rightarrow> 'a \<Rightarrow> nat option" where
  \<comment> \<open>\<open>xs.index(a)\<close> under the guard \<open>a in xs\<close>: \<open>None\<close> is the guard failing\<close>
  "list_index [] a = None"
| "list_index (x # xs) a = (if x = a then Some 0 else map_option Suc (list_index xs a))"

definition index_of :: "'a list \<Rightarrow> 'a \<Rightarrow> py_error + nat" where
  \<comment> \<open>\<open>xs.index(a)\<close> without a guard\<close>
  "index_of xs a = (case list_index xs a of None \<Rightarrow> Inl ValueError | Some i \<Rightarrow> Inr i)"

definition item :: "'a list \<Rightarrow> nat \<Rightarrow> py_error + 'a" where
  \<comment> \<open>\<open>xs[i]\<close> for \<open>i \<ge> 0\<close>\<close>
  "item xs i = (if i < length xs then Inr (xs ! i) else Inl IndexError)"

section \<open>The condition evaluator\<close>

fun str_less :: "string \<Rightarrow> string \<Rightarrow> bool" where
  \<comment> \<open>\<open><\<close> on \<open>str\<close>: lexicographic by code point\<close>
  "str_less [] [] = False"
| "str_less [] (y # ys) = True"
| "str_less (x # xs) [] = False"
| "str_less (x # xs) (y # ys) =
     (if x = y then str_less xs ys else (of_char x :: nat) < of_char y)"

fun val_less :: "pyval \<Rightarrow> pyval \<Rightarrow> py_error + bool" where
  \<comment> \<open>\<open>a < b\<close>: an integer and a string are not ordered\<close>
  "val_less (PInt a) (PInt b) = Inr (a < b)"
| "val_less (PStr a) (PStr b) = Inr (str_less a b)"
| "val_less _ _ = Inl TypeError"

fun val_le :: "pyval \<Rightarrow> pyval \<Rightarrow> py_error + bool" where
  "val_le (PInt a) (PInt b) = Inr (a \<le> b)"
| "val_le (PStr a) (PStr b) = Inr (a = b \<or> str_less a b)"
| "val_le _ _ = Inl TypeError"

definition compare :: "string \<Rightarrow> pyval \<Rightarrow> pyval \<Rightarrow> py_error + bool" where
  \<comment> \<open>the chain of \<open>if op == ...\<close> at the end of \<open>evaluate_condition\<close>\<close>
  "compare op tuple_value v =
     (if op = ''>'' then val_less v tuple_value
      else if op = ''<'' then val_less tuple_value v
      else if op = ''>='' then val_le v tuple_value
      else if op = ''<='' then val_le tuple_value v
      else if op = ''='' \<or> op = ''=='' then Inr (tuple_value = v)
      else if op = ''!='' then Inr (tuple_value \<noteq> v)
      else Inr False)"

definition literal :: "string \<Rightarrow> pyval" where
  \<comment> \<open>\<open>int(value)\<close>, and on ValueError \<open>value.strip('"\'')\<close>\<close>
  "literal s = (case py_int s of Some i \<Rightarrow> PInt i | None \<Rightarrow> PStr (strip_quotes s))"

fun eval_ops :: "string list \<Rightarrow> string \<Rightarrow> string list \<Rightarrow> pyval list \<Rightarrow> py_error + bool" where
  \<comment> \<open>the loop \<open>for op in [...]\<close>; \<open>Inr False\<close> at its end is the final \<open>return False\<close>\<close>
  "eval_ops [] condition attrs tuple_data = Inr False"
| "eval_ops (op # ops) condition attrs tuple_data =
     (if str_contains op condition then
        (case str_split op condition of
           [p0, p1] \<Rightarrow>
             (case list_index attrs (strip p0) of
                Some attr_index \<Rightarrow>
                  (case item tuple_data attr_index of
                     Inl e \<Rightarrow> Inl e
                   | Inr tuple_value \<Rightarrow> compare op tuple_value (literal (strip p1)))
              | None \<Rightarrow> eval_ops ops condition attrs tuple_data)
         | _ \<Rightarrow> eval_ops ops condition attrs tuple_data)
      else eval_ops ops condition attrs tuple_data)"

definition operators :: "string list" where
  "operators = [''>='', ''<='', ''>'', ''<'', ''='', ''!='']"

definition evaluate_condition :: "string \<Rightarrow> string list \<Rightarrow> pyval list \<Rightarrow> py_error + bool" where
  "evaluate_condition condition attrs tuple_data = eval_ops operators condition attrs tuple_data"

section \<open>The relational operators\<close>

fun select_loop :: "string \<Rightarrow> string list \<Rightarrow> pyval list list \<Rightarrow> pyval list list \<Rightarrow>
    py_error + pyval list list" where
  "select_loop condition attrs [] result_tuples = Inr result_tuples"
| "select_loop condition attrs (t # ts) result_tuples =
     (case evaluate_condition condition attrs t of
        Inl e \<Rightarrow> Inl e
      | Inr b \<Rightarrow> select_loop condition attrs ts (if b then result_tuples @ [t] else result_tuples))"

definition select_operation :: "store \<Rightarrow> string \<Rightarrow> string \<Rightarrow> py_error + relation option" where
  "select_operation relations relation_name condition =
     (case relations relation_name of
        None \<Rightarrow> Inr None
      | Some rel \<Rightarrow>
          (case select_loop condition (attributes rel) (tuples rel) [] of
             Inl e \<Rightarrow> Inl e
           | Inr ts \<Rightarrow> Inr (Some \<lparr>attributes = attributes rel, tuples = ts\<rparr>)))"

fun find_indices :: "string list \<Rightarrow> string list \<Rightarrow> nat list" where
  \<comment> \<open>the indices of the requested attributes that the schema has, the others skipped\<close>
  "find_indices schema [] = []"
| "find_indices schema (a # as) =
     (case list_index schema a of
        Some i \<Rightarrow> i # find_indices schema as
      | None \<Rightarrow> find_indices schema as)"

fun pick :: "'a list \<Rightarrow> nat list \<Rightarrow> py_error + 'a list" where
  \<comment> \<open>\<open>[tuple_data[i] for i in indices]\<close>\<close>
  "pick t [] = Inr []"
| "pick t (i # is) =
     (case item t i of
        Inl e \<Rightarrow> Inl e
      | Inr v \<Rightarrow> (case pick t is of Inl e \<Rightarrow> Inl e | Inr vs \<Rightarrow> Inr (v # vs)))"

fun project_loop :: "nat list \<Rightarrow> pyval list list \<Rightarrow> pyval list set \<Rightarrow> pyval list list \<Rightarrow>
    py_error + pyval list list" where
  "project_loop indices [] seen result_tuples = Inr result_tuples"
| "project_loop indices (t # ts) seen result_tuples =
     (case pick t indices of
        Inl e \<Rightarrow> Inl e
      | Inr projected \<Rightarrow>
          if projected \<notin> seen
          then project_loop indices ts (insert projected seen) (result_tuples @ [projected])
          else project_loop indices ts seen result_tuples)"

definition project_rel :: "relation \<Rightarrow> string list \<Rightarrow> py_error + relation" where
  \<comment> \<open>the body of \<open>project_operation\<close> once the relation is looked up\<close>
  "project_rel rel attrs =
     (case project_loop (find_indices (attributes rel) attrs) (tuples rel) {} [] of
        Inl e \<Rightarrow> Inl e
      | Inr ts \<Rightarrow> Inr \<lparr>attributes = attrs, tuples = ts\<rparr>)"

definition project_operation :: "store \<Rightarrow> string \<Rightarrow> string list \<Rightarrow> py_error + relation option" where
  "project_operation relations relation_name attrs =
     (case relations relation_name of
        None \<Rightarrow> Inr None
      | Some rel \<Rightarrow>
          (case project_rel rel attrs of Inl e \<Rightarrow> Inl e | Inr r \<Rightarrow> Inr (Some r)))"

definition common_attrs :: "string list \<Rightarrow> string list \<Rightarrow> string list" where
  \<comment> \<open>\<open>set(attrs1).intersection(set(attrs2))\<close>, listed in the order of the first schema.
      Python leaves the iteration order of a set open; it only decides the outcome
      when a tuple is shorter than its schema.\<close>
  "common_attrs attrs1 attrs2 = remdups (filter (\<lambda>a. a \<in> set attrs2) attrs1)"

fun extend_attrs :: "string list \<Rightarrow> string list \<Rightarrow> string list" where
  "extend_attrs result_attrs [] = result_attrs"
| "extend_attrs result_attrs (a # as) =
     extend_attrs (if a \<notin> set result_attrs then result_attrs @ [a] else result_attrs) as"

fun join_valid :: "string list \<Rightarrow> string list \<Rightarrow> string list \<Rightarrow> pyval list \<Rightarrow> pyval list \<Rightarrow>
    py_error + bool" where
  "join_valid attrs1 attrs2 [] tuple1 tuple2 = Inr True"
| "join_valid attrs1 attrs2 (a # cs) tuple1 tuple2 =
     (case index_of attrs1 a of Inl e \<Rightarrow> Inl e | Inr idx1 \<Rightarrow>
     (case index_of attrs2 a of Inl e \<Rightarrow> Inl e | Inr idx2 \<Rightarrow>
     (case item tuple1 idx1 of Inl e \<Rightarrow> Inl e | Inr v1 \<Rightarrow>
     (case item tuple2 idx2 of Inl e \<Rightarrow> Inl e | Inr v2 \<Rightarrow>
        if v1 \<noteq> v2 then Inr False else join_valid attrs1 attrs2 cs tuple1 tuple2))))"

fun combine :: "string list \<Rightarrow> (nat \<times> string) list \<Rightarrow> pyval list \<Rightarrow> pyval list \<Rightarrow>
    py_error + pyval list" where
  "combine attrs1 [] tuple2 combined = Inr combined"
| "combine attrs1 ((i, a) # r) tuple2 combined =
     (if a \<notin> set attrs1
      then (case item tuple2 i of
              Inl e \<Rightarrow> Inl e
            | Inr v \<Rightarrow> combine attrs1 r tuple2 (combined @ [v]))
      else combine attrs1 r tuple2 combined)"

fun join_inner :: "string list \<Rightarrow> string list \<Rightarrow> pyval list \<Rightarrow> pyval list list \<Rightarrow>
    pyval list list \<Rightarrow> py_error + pyval list list" where
  "join_inner attrs1 attrs2 tuple1 [] result_tuples = Inr result_tuples"
| "join_inner attrs1 attrs2 tuple1 (tuple2 # ts2) result_tuples =
     (case join_valid attrs1 attrs2 (common_attrs attrs1 attrs2) tuple1 tuple2 of
        Inl e \<Rightarrow> Inl e
      | Inr False \<Rightarrow> join_inner attrs1 attrs2 tuple1 ts2 result_tuples
      | Inr True \<Rightarrow>
          (case combine attrs1 (enumerate 0 attrs2) tuple2 tuple1 of
             Inl e \<Rightarrow> Inl e
           | Inr combined \<Rightarrow> join_inner attrs1 attrs2 tuple1 ts2 (result_tuples @ [combined])))"

fun join_outer :: "string list \<Rightarrow> string list \<Rightarrow> pyval list list \<Rightarrow> pyval list list \<Rightarrow>
    pyval list list \<Rightarrow> py_error + pyval list list" where
  "join_outer attrs1 attrs2 [] ts2 result_tuples = Inr result_tuples"
| "join_outer attrs1 attrs2 (tuple1 # ts1) ts2 result_tuples =
     (case join_inner attrs1 attrs2 tuple1 ts2 result_tuples of
        Inl e \<Rightarrow> Inl e
      | Inr result_tuples' \<Rightarrow> join_outer attrs1 attrs2 ts1 ts2 result_tuples')"

definition join_operation :: "store \<Rightarrow> string \<Rightarrow> string \<Rightarrow> py_error + relation option" where
  "join_operation relations relation1_name relation2_name =
     (case relations relation1_name of None \<Rightarrow> Inr None | Some rel1 \<Rightarrow>
     (case relations relation2_name of None \<Rightarrow> Inr None | Some rel2 \<Rightarrow>
     (case join_outer (attributes rel1) (attributes rel2) (tuples rel1) (tuples rel2) [] of
        Inl e \<Rightarrow> Inl e
      | Inr ts \<Rightarrow>
          Inr (Some \<lparr>attributes = extend_attrs (attributes rel1) (attributes rel2),
                     tuples = ts\<rparr>))))"

fun set_loop :: "(pyval list \<Rightarrow> bool) \<Rightarrow> pyval list list \<Rightarrow> pyval list set \<Rightarrow>
    pyval list list \<Rightarrow> pyval list list" where
  \<comment> \<open>the loop shared by union, intersection and difference: \<open>keep\<close> is the test on the
      second relation, \<open>seen\<close> the set of tuples already emitted\<close>
  "set_loop keep [] seen result_tuples = result_tuples"
| "set_loop keep (t # ts) seen result_tuples =
     (if keep t \<and> t \<notin> seen
      then set_loop keep ts (insert t seen) (result_tuples @ [t])
      else set_loop keep ts seen result_tuples)"

definition union_operation :: "store \<Rightarrow> string \<Rightarrow> string \<Rightarrow> relation option" where
  "union_operation relations relation1_name relation2_name =
     (case relations relation1_name of None \<Rightarrow> None | Some rel1 \<Rightarrow>
     (case relations relation2_name of None \<Rightarrow> None | Some rel2 \<Rightarrow>
      if attributes rel1 \<noteq> attributes rel2 then None
      else Some \<lparr>attributes = attributes rel1,
                 tuples = set_loop (\<lambda>t. True) (tuples rel1 @ tuples rel2) {} []\<rparr>))"

definition intersection_operation :: "store \<Rightarrow> string \<Rightarrow> string \<Rightarrow> relation option" where
  "intersection_operation relations relation1_name relation2_name =
     (case relations relation1_name of None \<Rightarrow> None | Some rel1 \<Rightarrow>
     (case relations relation2_name of None \<Rightarrow> None | Some rel2 \<Rightarrow>
      if attributes rel1 \<noteq> attributes rel2 then None
      else Some \<lparr>attributes = attributes rel1,
                 tuples = set_loop (\<lambda>t. t \<in> set (tuples rel2)) (tuples rel1) {} []\<rparr>))"

definition difference_operation :: "store \<Rightarrow> string \<Rightarrow> string \<Rightarrow> relation option" where
  "difference_operation relations relation1_name relation2_name =
     (case relations relation1_name of None \<Rightarrow> None | Some rel1 \<Rightarrow>
     (case relations relation2_name of None \<Rightarrow> None | Some rel2 \<Rightarrow>
      if attributes rel1 \<noteq> attributes rel2 then None
      else Some \<lparr>attributes = attributes rel1,
                 tuples = set_loop (\<lambda>t. t \<notin> set (tuples rel2)) (tuples rel1) {} []\<rparr>))"

section \<open>The query executor\<close>

text \<open>
  The store is the module's global dictionary; every function that touches it takes the
  store and returns it. An exception leaves the store as it is at the raise.
\<close>

type_synonym outcome = "py_error + relation option"

definition temp_name :: string where
  "temp_name = ''temp_result''"

definition execute_on_result ::
    "store \<Rightarrow> relation option \<Rightarrow> (store \<Rightarrow> string \<Rightarrow> outcome) \<Rightarrow> outcome \<times> store" where
  "execute_on_result relations operation_result operation_func =
     (case operation_result of
        None \<Rightarrow> (Inr None, relations)
      | Some r \<Rightarrow>
          (let relations1 = relations(temp_name \<mapsto> r) in
           case operation_func relations1 temp_name of
             Inl e \<Rightarrow> (Inl e, relations1)
           | Inr result \<Rightarrow> (Inr result, relations1(temp_name := None))))"

definition nested_re :: "string \<Rightarrow> atom list" where
  \<comment> \<open>\<open>kw\s+(.+?)\s*\(\s*(.+)\s*\)\<close>\<close>
  "nested_re kw =
     lit kw @ [Cls is_space 1 True False, Cls is_dot 1 False True, Cls is_space 0 True False,
               Chr CHR ''('', Cls is_space 0 True False, Cls is_dot 1 True True,
               Cls is_space 0 True False, Chr CHR '')'']"

definition bare_re :: "atom list" where
  \<comment> \<open>\<open>^\w+$\<close>\<close>
  "bare_re = [Cls is_word 1 True False, Eos]"

definition binary_re :: "string \<Rightarrow> atom list" where
  \<comment> \<open>\<open>kw\s+(\w+)\s+(\w+)\<close>\<close>
  "binary_re kw =
     lit kw @ [Cls is_space 1 True False, Cls is_word 1 True True,
               Cls is_space 1 True False, Cls is_word 1 True True]"

definition split_attrs :: "string \<Rightarrow> string list" where
  \<comment> \<open>\<open>[attr.strip() for attr in s.split(',')]\<close>\<close>
  "split_attrs s = map strip (str_split '','' s)"

definition parse_binary :: "store \<Rightarrow> string \<Rightarrow> outcome" where
  \<comment> \<open>the join, union, intersection and difference rules, and the final \<open>return None\<close>\<close>
  "parse_binary relations query =
     (case rx_match (binary_re ''join'') query of
        Some (rel1 # rel2 # _) \<Rightarrow> join_operation relations rel1 rel2
      | _ \<Rightarrow>
     (case rx_match (binary_re ''union'') query of
        Some (rel1 # rel2 # _) \<Rightarrow> Inr (union_operation relations rel1 rel2)
      | _ \<Rightarrow>
     (case rx_match (binary_re ''intersection'') query of
        Some (rel1 # rel2 # _) \<Rightarrow> Inr (intersection_operation relations rel1 rel2)
      | _ \<Rightarrow>
     (case rx_match (binary_re ''difference'') query of
        Some (rel1 # rel2 # _) \<Rightarrow> Inr (difference_operation relations rel1 rel2)
      | _ \<Rightarrow> Inr None))))"

text \<open>
  A nested query recurses on the text of its second group. That text is shorter than the
  query, since a group is a part of the matched string and the keyword is not in it.
\<close>

lemma first_some_SomeD: "first_some f ks = Some y \<Longrightarrow> \<exists>k\<in>set ks. f k = Some y"
  by (induction ks) (auto split: option.splits)

lemma rx_match_groups_length:
  "rx_match r s = Some gs \<Longrightarrow> sum_list (map length gs) \<le> length s"
proof (induction r arbitrary: s gs)
  case Nil
  then show ?case by simp
next
  case (Cons a r)
  show ?case
  proof (cases a)
    case (Chr c)
    with Cons.prems obtain x xs where s: "s = x # xs" and m: "rx_match r xs = Some gs"
      by (auto split: list.splits if_splits)
    from Cons.IH [OF m] s show ?thesis by simp
  next
    case Eos
    with Cons.prems have "rx_match r s = Some gs" by (auto split: if_splits)
    then show ?thesis by (rule Cons.IH)
  next
    case (Cls p mn greedy cap)
    let ?n = "length (takeWhile p s)"
    let ?f = "\<lambda>k. map_option (\<lambda>gs. if cap then take k s # gs else gs) (rx_match r (drop k s))"
    define ks where "ks = (if greedy then rev [mn..<Suc ?n] else [mn..<Suc ?n])"
    have ks: "set ks \<subseteq> {mn..?n}" by (auto simp: ks_def)
    have fs: "first_some ?f ks = Some gs"
      using Cons.prems unfolding Cls ks_def rx_match.simps Let_def .
    from first_some_SomeD [OF fs] obtain k where k: "k \<in> set ks" and fk: "?f k = Some gs"
      by blast
    from fk obtain gs' where m: "rx_match r (drop k s) = Some gs'"
      and gs: "gs = (if cap then take k s # gs' else gs')" by auto
    from k ks have "k \<le> ?n" by auto
    also have "?n \<le> length s" by (rule length_takeWhile_le)
    finally have kl: "k \<le> length s" .
    from Cons.IH [OF m] kl have le: "sum_list (map length gs') + k \<le> length s" by simp
    show ?thesis
    proof (cases cap)
      case True
      have "length (take k s) = k" using kl by simp
      with True gs le show ?thesis by simp
    next
      case False
      with gs le show ?thesis by simp
    qed
  qed
qed

lemma length_strip_with_le: "length (strip_with p s) \<le> length s"
proof -
  have "length (dropWhile p (rev (dropWhile p s))) \<le> length (rev (dropWhile p s))"
    by (rule length_dropWhile_le)
  also have "\<dots> \<le> length s" by (simp add: length_dropWhile_le)
  finally show ?thesis by (simp add: strip_with_def)
qed

lemma length_strip_le: "length (strip s) \<le> length s"
  by (simp add: strip_def length_strip_with_le)

lemma nested_re_inner_shorter:
  assumes "rx_match (nested_re (c # kw)) s = Some (g1 # g2 # gs)"
  shows "length (strip g2) < length s"
proof -
  from assms obtain s' where s: "s = c # s'"
    and m: "rx_match (tl (nested_re (c # kw))) s' = Some (g1 # g2 # gs)"
    by (auto simp: nested_re_def lit_def split: list.splits if_splits)
  from rx_match_groups_length [OF m] have "length g2 \<le> length s'" by simp
  moreover have "length (strip g2) \<le> length g2"
    by (rule length_strip_le)
  ultimately show ?thesis using s by simp
qed

function parse_query :: "store \<Rightarrow> string \<Rightarrow> outcome \<times> store"
  and parse_from_select :: "store \<Rightarrow> string \<Rightarrow> outcome \<times> store" where
  "parse_query relations q =
     (let query = strip q in
      case rx_match (nested_re ''project'') query of
        Some (g1 # g2 # _) \<Rightarrow>
          (let attrs_str = strip g1; inner_query = strip g2 in
           if rx_match bare_re inner_query \<noteq> None
           then (project_operation relations inner_query (split_attrs attrs_str), relations)
           else (case parse_query relations inner_query of
                   (Inl e, relations') \<Rightarrow> (Inl e, relations')
                 | (Inr None, relations') \<Rightarrow> parse_from_select relations' query
                 | (Inr (Some inner_result), relations') \<Rightarrow>
                     execute_on_result relations' (Some inner_result)
                       (\<lambda>rs n. project_operation rs n (split_attrs attrs_str))))
      | _ \<Rightarrow> parse_from_select relations query)"
| "parse_from_select relations query =
     (case rx_match (nested_re ''select'') query of
        Some (g1 # g2 # _) \<Rightarrow>
          (let condition = strip g1; inner_query = strip g2 in
           if rx_match bare_re inner_query \<noteq> None
           then (select_operation relations inner_query condition, relations)
           else (case parse_query relations inner_query of
                   (Inl e, relations') \<Rightarrow> (Inl e, relations')
                 | (Inr None, relations') \<Rightarrow> (parse_binary relations' query, relations')
                 | (Inr (Some inner_result), relations') \<Rightarrow>
                     execute_on_result relations' (Some inner_result)
                       (\<lambda>rs n. select_operation rs n condition)))
      | _ \<Rightarrow> (parse_binary relations query, relations))"
  by pat_completeness auto
termination
  apply (relation "measure (\<lambda>x. case x of Inl (relations, q) \<Rightarrow> 2 * length q + 1
                                  | Inr (relations, query) \<Rightarrow> 2 * length query)")
  subgoal by simp
  subgoal for relations q x
    using length_strip_le [of q] by simp
  subgoal for relations q x
    using length_strip_le [of q] by simp
  subgoal for relations q x
    using length_strip_le [of q] by simp
  subgoal for relations q x x2 x21 x22 x21a x22a
    using nested_re_inner_shorter [of "CHR ''p''" "''roject''" x x21 x21a x22a]
      length_strip_le [of q]
    by simp
  subgoal for relations q x
    using length_strip_le [of q] by simp
  subgoal for relations query x2 x21 x22 x21a x22a
    using nested_re_inner_shorter [of "CHR ''s''" "''elect''" query x21 x21a x22a]
    by simp
  done

declare parse_query.simps [simp del] parse_from_select.simps [simp del]


section \<open>The definition parser\<close>

definition header_re :: "atom list" where
  \<comment> \<open>\<open>(\w+)\s*\(([^)]+)\)\s*=\s*\{\<close>\<close>
  "header_re =
     [Cls is_word 1 True True, Cls is_space 0 True False, Chr CHR ''('',
      Cls (\<lambda>c. c \<noteq> CHR '')'') 1 True True, Chr CHR '')'', Cls is_space 0 True False,
      Chr CHR ''='', Cls is_space 0 True False, Chr CHR ''{'']"

definition convert :: "string \<Rightarrow> pyval" where
  \<comment> \<open>\<open>int(val)\<close>, and on ValueError the string itself\<close>
  "convert val = (case py_int val of Some i \<Rightarrow> PInt i | None \<Rightarrow> PStr val)"

definition parse_tuple_line :: "string \<Rightarrow> pyval list" where
  "parse_tuple_line tuple_line =
     map (\<lambda>val. convert (strip_dquote (strip val))) (str_split '','' tuple_line)"

definition is_tuple_line :: "string \<Rightarrow> bool" where
  \<comment> \<open>a stripped line that is neither empty nor a comment\<close>
  "is_tuple_line l \<longleftrightarrow> l \<noteq> [] \<and> \<not> prefix ''#'' l"

definition tuple_lines :: "string \<Rightarrow> string list" where
  \<comment> \<open>the lines of the body that the loop parses, stripped\<close>
  "tuple_lines tuples_text =
     (if tuples_text \<noteq> []
      then filter is_tuple_line (map strip (str_split [CHR 0x0A] tuples_text))
      else [])"

definition parse_tuples :: "string \<Rightarrow> pyval list list" where
  "parse_tuples tuples_text = map parse_tuple_line (tuple_lines tuples_text)"

definition parse_relation :: "store \<Rightarrow> string \<Rightarrow> store" where
  "parse_relation relations text =
     (case rx_match header_re text of
        Some (name # g2 # _) \<Rightarrow>
          (case str_find CHR ''{'' text of
             None \<Rightarrow> relations
           | Some start \<Rightarrow>
               (case str_rfind CHR ''}'' text of
                  None \<Rightarrow> relations
                | Some end \<Rightarrow>
                    relations(name \<mapsto>
                      \<lparr>attributes = split_attrs g2,
                       tuples = parse_tuples (strip (str_slice text (start + 1) end))\<rparr>)))
      | _ \<Rightarrow> relations)"

section \<open>Reference notions and sample data\<close>

definition first_occurrences :: "'a list \<Rightarrow> 'a list" where
  \<comment> \<open>duplicates removed, the first occurrence of each element kept, in first-seen order:
      the elements at the positions where they have not occurred before\<close>
  "first_occurrences xs =
     map (nth xs) (filter (\<lambda>i. xs ! i \<notin> set (take i xs)) [0..<length xs])"


definition is_int :: "pyval \<Rightarrow> bool" where
  "is_int v = (case v of PInt _ \<Rightarrow> True | PStr _ \<Rightarrow> False)"

definition well_formed :: "relation \<Rightarrow> bool" where
  \<comment> \<open>the invariant of the data model: every tuple is as long as the schema\<close>
  "well_formed r \<longleftrightarrow> list_all (\<lambda>t. length t = length (attributes r)) (tuples r)"

definition store_kept :: "store \<Rightarrow> outcome \<times> store \<Rightarrow> bool" where
  \<comment> \<open>what an evaluation may do to the store: nothing outside the temporary name, and on
      a return nothing at all but the removal of an entry under that name\<close>
  "store_kept relations res \<longleftrightarrow>
     (\<forall>n. n \<noteq> temp_name \<longrightarrow> snd res n = relations n) \<and>
     ((\<exists>r. fst res = Inr r) \<longrightarrow>
        snd res = relations \<or> snd res = relations(temp_name := None))"


definition rel_ab :: relation where
  "rel_ab = \<lparr>attributes = [''a'', ''b''], tuples = [[PInt 1, PInt 2], [PInt 1, PInt 3]]\<rparr>"

definition rel_ab2 :: relation where
  "rel_ab2 = \<lparr>attributes = [''a'', ''b''], tuples = [[PInt 1, PInt 3], [PInt 4, PInt 5]]\<rparr>"

definition rel_bc :: relation where
  "rel_bc = \<lparr>attributes = [''b'', ''c''], tuples = [[PInt 2, PStr ''x'']]\<rparr>"

definition sample_store :: store where
  "sample_store = [''R'' \<mapsto> rel_ab, ''S'' \<mapsto> rel_ab2, ''T'' \<mapsto> rel_bc]"

section \<open>The set operators\<close>

lemma upt_0_Suc_shift: "[0..<Suc n] = 0 # map Suc [0..<n]"
  by (simp add: upt_conv_Cons map_Suc_upt del: upt_Suc)

lemma set_loop_positions:
  "set_loop keep xs seen res =
     res @ map (nth xs)
             (filter (\<lambda>i. keep (xs ! i) \<and> xs ! i \<notin> seen \<and> xs ! i \<notin> set (take i xs))
                [0..<length xs])"
proof (induction xs arbitrary: seen res)
  case Nil
  show ?case by simp
next
  case (Cons x xs)
  have shift: "\<And>P. map (nth (x # xs)) (filter P (map Suc [0..<length xs]))
      = map (nth xs) (filter (\<lambda>i. P (Suc i)) [0..<length xs])"
    by (simp add: filter_map comp_def)
  show ?case
  proof (cases "keep x \<and> x \<notin> seen")
    case True
    have "set_loop keep (x # xs) seen res = set_loop keep xs (insert x seen) (res @ [x])"
      using True by simp
    also have "\<dots> = (res @ [x]) @ map (nth xs)
        (filter (\<lambda>i. keep (xs ! i) \<and> xs ! i \<notin> insert x seen \<and> xs ! i \<notin> set (take i xs))
           [0..<length xs])"
      by (rule Cons.IH)
    also have "\<dots> = res @ map (nth (x # xs))
        (filter (\<lambda>i. keep ((x # xs) ! i) \<and> (x # xs) ! i \<notin> seen \<and>
                     (x # xs) ! i \<notin> set (take i (x # xs)))
           [0..<length (x # xs)])"
      using True
      by (simp add: upt_0_Suc_shift shift del: upt_Suc)
        (rule arg_cong [where f = "map (nth xs)"], rule filter_cong, auto)
    finally show ?thesis .
  next
    case False
    have "set_loop keep (x # xs) seen res = set_loop keep xs seen res"
      using False by auto
    also have "\<dots> = res @ map (nth xs)
        (filter (\<lambda>i. keep (xs ! i) \<and> xs ! i \<notin> seen \<and> xs ! i \<notin> set (take i xs))
           [0..<length xs])"
      by (rule Cons.IH)
    also have "\<dots> = res @ map (nth (x # xs))
        (filter (\<lambda>i. keep ((x # xs) ! i) \<and> (x # xs) ! i \<notin> seen \<and>
                     (x # xs) ! i \<notin> set (take i (x # xs)))
           [0..<length (x # xs)])"
    proof -
      have "filter (\<lambda>i. keep (xs ! i) \<and> xs ! i \<notin> seen \<and> xs ! i \<notin> set (take i xs))
              [0..<length xs]
          = filter (\<lambda>i. keep (xs ! i) \<and> xs ! i \<notin> seen \<and> xs ! i \<noteq> x \<and>
                       xs ! i \<notin> set (take i xs)) [0..<length xs]"
        using False by (intro filter_cong) auto
      with False show ?thesis
        by (auto simp add: upt_0_Suc_shift shift simp del: upt_Suc)
    qed
    finally show ?thesis .
  qed
qed


text \<open>
  C7. For two relations present in the store, union fails exactly when their attribute
  sequences differ; when they are equal the result has that schema, and its tuples are
  the tuples of the first relation followed by those of the second, with duplicates
  removed and the first occurrence of each tuple kept in first-seen order.
\<close>

theorem union_operation_spec:
  assumes "relations n1 = Some r1" and "relations n2 = Some r2"
  shows "(union_operation relations n1 n2 = None \<longleftrightarrow> attributes r1 \<noteq> attributes r2) \<and>
         (attributes r1 = attributes r2 \<longrightarrow>
            union_operation relations n1 n2 =
              Some \<lparr>attributes = attributes r1,
                     tuples = first_occurrences (tuples r1 @ tuples r2)\<rparr>)"
  using assms by (simp add: union_operation_def set_loop_positions first_occurrences_def)

theorem union_operation_spec_witness:
  "sample_store ''R'' = Some rel_ab \<and> sample_store ''S'' = Some rel_ab2 \<and>
   attributes rel_ab = attributes rel_ab2 \<and>
   union_operation sample_store ''R'' ''S'' =
     Some \<lparr>attributes = [''a'', ''b''],
            tuples = [[PInt 1, PInt 2], [PInt 1, PInt 3], [PInt 4, PInt 5]]\<rparr>"
proof -
  have h1: "sample_store ''R'' = Some rel_ab" by (simp add: sample_store_def)
  have h2: "sample_store ''S'' = Some rel_ab2" by (simp add: sample_store_def)
  have h3: "attributes rel_ab = attributes rel_ab2" by (simp add: rel_ab_def rel_ab2_def)
  have "first_occurrences (tuples rel_ab @ tuples rel_ab2) =
          [[PInt 1, PInt 2], [PInt 1, PInt 3], [PInt 4, PInt 5]]"
    by (simp add: first_occurrences_def rel_ab_def rel_ab2_def upt_rec)
  with union_operation_spec [OF h1 h2] h1 h2 h3 show ?thesis
    by (simp add: rel_ab_def)
qed

section \<open>Conditions\<close>















theorem cross_type_comparison_counterexample:
  "list_index [''a'', ''b''] ''a'' = Some 0 \<and>
   is_int ([PInt 1, PInt 2] ! 0) \<noteq>
     is_int (literal [CHR 0x22, CHR ''x'', CHR ''>'', CHR ''y'', CHR 0x22]) \<and>
   compare ''>'' ([PInt 1, PInt 2] ! 0)
     (literal [CHR 0x22, CHR ''x'', CHR ''>'', CHR ''y'', CHR 0x22]) = Inl TypeError \<and>
   evaluate_condition
     [CHR ''a'', CHR ''>'', CHR 0x22, CHR ''x'', CHR ''>'', CHR ''y'', CHR 0x22]
     [''a'', ''b''] [PInt 1, PInt 2] = Inr False \<and>
   list_index [''a'', ''a!''] ''a'' = Some 0 \<and>
   is_int ([PInt 1, PStr ''y''] ! 0) \<noteq> is_int (literal ''x'') \<and>
   compare ''!='' ([PInt 1, PStr ''y''] ! 0) (literal ''x'') = Inr True \<and>
   evaluate_condition ''a!=x'' [''a'', ''a!''] [PInt 1, PStr ''y''] = Inr False"
  by code_simp

text \<open>
  C5. The operators are scanned in the order \<open>>=\<close>, \<open><=\<close>, \<open>>\<close>, \<open><\<close>, \<open>=\<close>, \<open>!=\<close>: the
  two-character \<open>!=\<close> comes after its suffix \<open>=\<close>. In a relation with the attributes \<open>a\<close>
  and \<open>a!\<close>, the condition \<open>a!=1\<close> is cut at \<open>=\<close> and decided as \<open>a! = 1\<close>: on the tuple
  \<open>(1, 1)\<close> it holds, although \<open>a\<close> is not different from 1, and the selection keeps the
  tuple.
\<close>

theorem not_equal_cut_at_equal:
  "evaluate_condition ''a!=1'' [''a'', ''a!''] [PInt 1, PInt 1] = Inr True \<and>
   compare ''!='' ([PInt 1, PInt 1] ! 0) (literal ''1'') = Inr False \<and>
   fst (parse_query (parse_relation Map.empty ''R (a, a!) = {1, 1}'') ''select a!=1 (R)'') =
     Inr (Some \<lparr>attributes = [''a'', ''a!''], tuples = [[PInt 1, PInt 1]]\<rparr>)"
  by code_simp

section \<open>Projection\<close>

lemma list_index_Some: "list_index xs a = Some i \<Longrightarrow> i < length xs \<and> xs ! i = a"
  by (induction xs arbitrary: i) (auto split: if_splits)

lemma list_index_None: "list_index xs a = None \<longleftrightarrow> a \<notin> set xs"
  by (induction xs) auto

lemma find_indices_subset:
  "set attrs \<subseteq> set schema \<Longrightarrow>
   find_indices schema attrs = map (\<lambda>a. the (list_index schema a)) attrs"
  by (induction attrs) (auto simp: list_index_None split: option.splits)

lemma find_indices_bound: "i \<in> set (find_indices schema attrs) \<Longrightarrow> i < length schema"
  by (induction attrs) (auto split: option.splits dest: list_index_Some)

lemma pick_InrD:
  "pick t idx = Inr vs \<Longrightarrow> vs = map (nth t) idx \<and> (\<forall>i\<in>set idx. i < length t)"
  by (induction idx arbitrary: vs) (auto simp: item_def split: sum.splits if_splits)

lemma pick_InrI: "\<forall>i\<in>set idx. i < length t \<Longrightarrow> pick t idx = Inr (map (nth t) idx)"
  by (induction idx) (auto simp: item_def)


lemma project_loop_InrD:
  "project_loop idx ts seen res = Inr out \<Longrightarrow>
   (\<forall>t\<in>set ts. \<forall>i\<in>set idx. i < length t) \<and>
   out = set_loop (\<lambda>t. True) (map (\<lambda>t. map (nth t) idx) ts) seen res"
proof (induction ts arbitrary: seen res)
  case Nil
  then show ?case by simp
next
  case (Cons t ts)
  from Cons.prems obtain p where p: "pick t idx = Inr p"
    by (cases "pick t idx") auto
  from pick_InrD [OF p] have pe: "p = map (nth t) idx" and b: "\<forall>i\<in>set idx. i < length t"
    by auto
  show ?case
  proof (cases "p \<in> seen")
    case True
    with Cons.prems p have "project_loop idx ts seen res = Inr out" by simp
    from Cons.IH [OF this] True pe b show ?thesis by simp
  next
    case False
    with Cons.prems p have "project_loop idx ts (insert p seen) (res @ [p]) = Inr out" by simp
    from Cons.IH [OF this] False pe b show ?thesis by simp
  qed
qed

lemma project_loop_InrI:
  "\<forall>t\<in>set ts. \<forall>i\<in>set idx. i < length t \<Longrightarrow>
   project_loop idx ts seen res =
     Inr (set_loop (\<lambda>t. True) (map (\<lambda>t. map (nth t) idx) ts) seen res)"
  by (induction ts arbitrary: seen res) (simp_all add: pick_InrI)


lemma set_loop_subset: "set (set_loop keep xs seen res) \<subseteq> set res \<union> set xs"
proof (induction xs arbitrary: seen res)
  case Nil
  show ?case by simp
next
  case (Cons a xs)
  show ?case
    using Cons.IH [of "insert a seen" "res @ [a]"] Cons.IH [of seen res] by auto
qed

lemma set_loop_distinct:
  "distinct res \<Longrightarrow> set res \<subseteq> seen \<Longrightarrow> distinct (set_loop keep xs seen res)"
proof (induction xs arbitrary: seen res)
  case Nil
  then show ?case by simp
next
  case (Cons a xs)
  show ?case
    using Cons.IH [of "res @ [a]" "insert a seen"] Cons.IH [of res seen] Cons.prems by auto
qed

lemma set_loop_id:
  "distinct xs \<Longrightarrow> set xs \<inter> seen = {} \<Longrightarrow> set_loop (\<lambda>t. True) xs seen res = res @ xs"
  by (induction xs arbitrary: seen res) auto

lemma reproject_tuple:
  assumes sub: "set attrs \<subseteq> set schema"
  shows "map (nth (map (nth t) (find_indices schema attrs))) (find_indices attrs attrs)
       = map (nth t) (find_indices schema attrs)"
proof -
  let ?idx = "map (\<lambda>a. the (list_index schema a)) attrs"
  let ?idx2 = "map (\<lambda>a. the (list_index attrs a)) attrs"
  have i1: "find_indices schema attrs = ?idx" using sub by (rule find_indices_subset)
  have i2: "find_indices attrs attrs = ?idx2" by (rule find_indices_subset) simp
  have "map (nth (map (nth t) ?idx)) ?idx2 = map (nth t) ?idx"
  proof (rule nth_equalityI)
    show "length (map (nth (map (nth t) ?idx)) ?idx2) = length (map (nth t) ?idx)" by simp
  next
    fix k assume "k < length (map (nth (map (nth t) ?idx)) ?idx2)"
    then have k: "k < length attrs" by simp
    then have "attrs ! k \<in> set attrs" by simp
    then obtain j where j: "list_index attrs (attrs ! k) = Some j"
      using list_index_None [of attrs "attrs ! k"] by (cases "list_index attrs (attrs ! k)") auto
    from list_index_Some [OF j] have jl: "j < length attrs" and je: "attrs ! j = attrs ! k"
      by auto
    from k jl je j show "map (nth (map (nth t) ?idx)) ?idx2 ! k = map (nth t) ?idx ! k"
      by simp
  qed
  with i1 i2 show ?thesis by simp
qed

text \<open>
  C8. Projection is idempotent: when every requested attribute is in the schema of the
  relation, projecting the projection on the same attributes gives the projection itself,
  schema and tuples in the same order (and where the first projection raises, so does the
  composition).
\<close>

theorem project_idempotent:
  assumes sub: "set attrs \<subseteq> set (attributes rel)"
  shows "(case project_rel rel attrs of Inl e \<Rightarrow> Inl e | Inr p \<Rightarrow> project_rel p attrs)
       = project_rel rel attrs"
proof (cases "project_rel rel attrs")
  case (Inl e)
  then show ?thesis by simp
next
  case (Inr p)
  let ?idx = "find_indices (attributes rel) attrs"
  let ?idx2 = "find_indices attrs attrs"
  from Inr obtain out where out: "project_loop ?idx (tuples rel) {} [] = Inr out"
    and p: "p = \<lparr>attributes = attrs, tuples = out\<rparr>"
    by (auto simp: project_rel_def split: sum.splits)
  from project_loop_InrD [OF out]
  have oe: "out = set_loop (\<lambda>t. True) (map (\<lambda>t. map (nth t) ?idx) (tuples rel)) {} []"
    by simp
  have d: "distinct out" unfolding oe by (rule set_loop_distinct) simp_all
  have form: "\<forall>q\<in>set out. \<exists>t. q = map (nth t) ?idx"
    using set_loop_subset [of "\<lambda>t. True" "map (\<lambda>t. map (nth t) ?idx) (tuples rel)" "{}" "[]"]
    unfolding oe [symmetric] by auto
  have len: "length ?idx = length attrs"
    using find_indices_subset [OF sub] by simp
  have bound: "\<forall>q\<in>set out. \<forall>i\<in>set ?idx2. i < length q"
    using form len find_indices_bound [of _ attrs attrs] by auto
  have same: "map (\<lambda>q. map (nth q) ?idx2) out = out"
  proof (rule map_idI)
    fix q assume "q \<in> set out"
    with form obtain t where "q = map (nth t) ?idx" by blast
    then show "map (nth q) ?idx2 = q" using reproject_tuple [OF sub, of t] by simp
  qed
  have "project_loop ?idx2 out {} [] = Inr out"
    using project_loop_InrI [OF bound, of "{}" "[]"] same d by (simp add: set_loop_id)
  then have "project_rel p attrs = Inr p" by (simp add: project_rel_def p)
  with Inr show ?thesis by simp
qed

theorem project_idempotent_witness:
  "set [''b''] \<subseteq> set (attributes rel_ab) \<and>
   project_rel rel_ab [''b''] = Inr \<lparr>attributes = [''b''], tuples = [[PInt 2], [PInt 3]]\<rparr> \<and>
   project_rel \<lparr>attributes = [''b''], tuples = [[PInt 2], [PInt 3]]\<rparr> [''b''] =
     Inr \<lparr>attributes = [''b''], tuples = [[PInt 2], [PInt 3]]\<rparr>"
proof -
  have h: "set [''b''] \<subseteq> set (attributes rel_ab)" by (simp add: rel_ab_def)
  have e: "project_rel rel_ab [''b''] =
      Inr \<lparr>attributes = [''b''], tuples = [[PInt 2], [PInt 3]]\<rparr>"
    by (simp add: project_rel_def rel_ab_def item_def)
  from project_idempotent [OF h] e h show ?thesis by simp
qed

section \<open>The arity invariant\<close>

lemma well_formed_iff:
  "well_formed r \<longleftrightarrow> (\<forall>t\<in>set (tuples r). length t = length (attributes r))"
  by (simp add: well_formed_def list_all_iff)

lemma select_loop_subset:
  "select_loop c as ts res = Inr out \<Longrightarrow> set out \<subseteq> set res \<union> set ts"
proof (induction ts arbitrary: res)
  case Nil
  then show ?case by simp
next
  case (Cons t ts)
  from Cons.prems obtain b where
    "select_loop c as ts (if b then res @ [t] else res) = Inr out"
    by (auto split: sum.splits)
  from Cons.IH [OF this] show ?case by (auto split: if_splits)
qed

lemma select_operation_well_formed:
  assumes "relations n = Some rel" and "well_formed rel"
    and "select_operation relations n c = Inr (Some r)"
  shows "well_formed r"
proof -
  from assms obtain out where o: "select_loop c (attributes rel) (tuples rel) [] = Inr out"
    and r: "r = \<lparr>attributes = attributes rel, tuples = out\<rparr>"
    by (auto simp: select_operation_def split: sum.splits)
  from select_loop_subset [OF o] assms(2) show ?thesis
    by (auto simp: well_formed_iff r)
qed

lemma length_find_indices:
  "length (find_indices schema attrs) = length (filter (\<lambda>a. a \<in> set schema) attrs)"
proof (induction attrs)
  case Nil
  show ?case by simp
next
  case (Cons a attrs)
  show ?case
  proof (cases "list_index schema a")
    case None
    then have "a \<notin> set schema" by (simp add: list_index_None)
    with Cons.IH None show ?thesis by simp
  next
    case (Some i)
    then have "a \<in> set schema" using list_index_None [of schema a] by auto
    with Cons.IH Some show ?thesis by simp
  qed
qed

lemma project_rel_lengths:
  assumes "project_rel rel attrs = Inr p"
  shows "attributes p = attrs \<and>
         (\<forall>t\<in>set (tuples p). length t = length (filter (\<lambda>a. a \<in> set (attributes rel)) attrs))"
proof -
  let ?idx = "find_indices (attributes rel) attrs"
  from assms obtain out where out: "project_loop ?idx (tuples rel) {} [] = Inr out"
    and p: "p = \<lparr>attributes = attrs, tuples = out\<rparr>"
    by (auto simp: project_rel_def split: sum.splits)
  from project_loop_InrD [OF out]
  have "out = set_loop (\<lambda>t. True) (map (\<lambda>t. map (nth t) ?idx) (tuples rel)) {} []" by simp
  with set_loop_subset [of "\<lambda>t. True" "map (\<lambda>t. map (nth t) ?idx) (tuples rel)" "{}" "[]"]
  have "\<forall>q\<in>set out. length q = length ?idx" by auto
  with p show ?thesis by (simp add: length_find_indices)
qed

lemma project_rel_well_formed:
  assumes "project_rel rel attrs = Inr p" and "set attrs \<subseteq> set (attributes rel)"
  shows "well_formed p"
proof -
  from assms(2) have "filter (\<lambda>a. a \<in> set (attributes rel)) attrs = attrs"
    by (auto intro: filter_True)
  with project_rel_lengths [OF assms(1)] show ?thesis by (simp add: well_formed_iff)
qed


lemma length_extend_attrs:
  "distinct as \<Longrightarrow>
   length (extend_attrs acc as) = length acc + length (filter (\<lambda>a. a \<notin> set acc) as)"
proof (induction as arbitrary: acc)
  case Nil
  show ?case by simp
next
  case (Cons a as)
  from Cons.prems have d: "distinct as" and na: "a \<notin> set as" by auto
  have "filter (\<lambda>x. x \<notin> set (acc @ [a])) as = filter (\<lambda>x. x \<notin> set acc) as"
    using na by (intro filter_cong) auto
  with Cons.IH [OF d, of "acc @ [a]"] Cons.IH [OF d, of acc] show ?case by simp
qed

lemma combine_length:
  "combine attrs1 (enumerate n attrs2) tuple2 combined = Inr c \<Longrightarrow>
   length c = length combined + length (filter (\<lambda>a. a \<notin> set attrs1) attrs2)"
proof (induction attrs2 arbitrary: n combined)
  case Nil
  then show ?case by simp
next
  case (Cons a as)
  show ?case
  proof (cases "a \<in> set attrs1")
    case True
    with Cons.prems have "combine attrs1 (enumerate (Suc n) as) tuple2 combined = Inr c" by simp
    from Cons.IH [OF this] True show ?thesis by simp
  next
    case False
    with Cons.prems obtain v where
      "combine attrs1 (enumerate (Suc n) as) tuple2 (combined @ [v]) = Inr c"
      by (auto split: sum.splits)
    from Cons.IH [OF this] False show ?thesis by simp
  qed
qed

lemma join_inner_lengths:
  "join_inner attrs1 attrs2 tuple1 ts2 res = Inr out \<Longrightarrow>
   \<forall>c\<in>set out. c \<in> set res \<or>
      length c = length tuple1 + length (filter (\<lambda>a. a \<notin> set attrs1) attrs2)"
proof (induction ts2 arbitrary: res)
  case Nil
  then show ?case by simp
next
  case (Cons t2 ts2)
  show ?case
  proof (cases "join_valid attrs1 attrs2 (common_attrs attrs1 attrs2) tuple1 t2")
    case (Inl e)
    with Cons.prems show ?thesis by simp
  next
    case (Inr b)
    show ?thesis
    proof (cases b)
      case False
      with Inr Cons.prems have "join_inner attrs1 attrs2 tuple1 ts2 res = Inr out" by simp
      from Cons.IH [OF this] show ?thesis .
    next
      case True
      with Inr Cons.prems obtain c where c: "combine attrs1 (enumerate 0 attrs2) t2 tuple1 = Inr c"
        and r: "join_inner attrs1 attrs2 tuple1 ts2 (res @ [c]) = Inr out"
        by (auto split: sum.splits)
      from Cons.IH [OF r] combine_length [OF c] show ?thesis by auto
    qed
  qed
qed

lemma join_outer_lengths:
  "join_outer attrs1 attrs2 ts1 ts2 res = Inr out \<Longrightarrow>
   \<forall>c\<in>set out. c \<in> set res \<or>
      (\<exists>t1\<in>set ts1. length c = length t1 + length (filter (\<lambda>a. a \<notin> set attrs1) attrs2))"
proof (induction ts1 arbitrary: res)
  case Nil
  then show ?case by simp
next
  case (Cons t1 ts1)
  from Cons.prems obtain mid where m: "join_inner attrs1 attrs2 t1 ts2 res = Inr mid"
    and r: "join_outer attrs1 attrs2 ts1 ts2 mid = Inr out"
    by (auto split: sum.splits)
  from Cons.IH [OF r] join_inner_lengths [OF m] show ?case by fastforce
qed

lemma join_operation_well_formed:
  assumes "relations n1 = Some r1" and "relations n2 = Some r2"
    and "well_formed r1" and "distinct (attributes r2)"
    and "join_operation relations n1 n2 = Inr (Some r)"
  shows "well_formed r"
proof -
  from assms obtain out where
    o: "join_outer (attributes r1) (attributes r2) (tuples r1) (tuples r2) [] = Inr out"
    and r: "r = \<lparr>attributes = extend_attrs (attributes r1) (attributes r2), tuples = out\<rparr>"
    by (auto simp: join_operation_def split: sum.splits)
  from join_outer_lengths [OF o] assms(3) length_extend_attrs [OF assms(4), of "attributes r1"]
  show ?thesis by (auto simp: well_formed_iff r)
qed

lemma set_operations_well_formed:
  assumes "relations n1 = Some r1" and "relations n2 = Some r2"
    and "well_formed r1" and "well_formed r2"
  shows "union_operation relations n1 n2 = Some r \<Longrightarrow> well_formed r"
    and "intersection_operation relations n1 n2 = Some r \<Longrightarrow> well_formed r"
    and "difference_operation relations n1 n2 = Some r \<Longrightarrow> well_formed r"
proof -
  have sub: "\<And>keep xs. set (set_loop keep xs {} []) \<subseteq> set xs"
    using set_loop_subset [of _ _ "{}" "[]"] by simp
  show "union_operation relations n1 n2 = Some r \<Longrightarrow> well_formed r"
    using assms sub [of "\<lambda>t. True" "tuples r1 @ tuples r2"]
    by (auto simp: union_operation_def well_formed_iff split: if_splits)
  show "intersection_operation relations n1 n2 = Some r \<Longrightarrow> well_formed r"
    using assms sub [of "\<lambda>t. t \<in> set (tuples r2)" "tuples r1"]
    by (auto simp: intersection_operation_def well_formed_iff split: if_splits)
  show "difference_operation relations n1 n2 = Some r \<Longrightarrow> well_formed r"
    using assms sub [of "\<lambda>t. t \<notin> set (tuples r2)" "tuples r1"]
    by (auto simp: difference_operation_def well_formed_iff split: if_splits)
qed

lemma parse_relation_well_formed:
  assumes "rx_match header_re text = Some (name # g2 # gs)"
    and "str_find CHR ''{'' text = Some start" and "str_rfind CHR ''}'' text = Some end"
  shows "\<exists>rel. parse_relation relations text name = Some rel \<and>
           (well_formed rel \<longleftrightarrow>
              list_all (\<lambda>l. length (str_split '','' l) = length (str_split '','' g2))
                (tuple_lines (strip (str_slice text (start + 1) end))))"
  using assms
  by (simp add: parse_relation_def well_formed_def parse_tuples_def parse_tuple_line_def
      split_attrs_def list_all_iff)

lemma length_filter_full:
  "length (filter P xs) = length xs \<longleftrightarrow> (\<forall>x\<in>set xs. P x)"
proof -
  have "length (filter P xs) + length (filter (\<lambda>x. \<not> P x) xs) = length xs"
    by (rule sum_length_filter_compl)
  moreover have "length (filter (\<lambda>x. \<not> P x) xs) = 0 \<longleftrightarrow> (\<forall>x\<in>set xs. P x)"
    by (simp add: filter_empty_conv)
  ultimately show ?thesis by arith
qed

lemma project_operation_well_formed_iff:
  assumes "relations n = Some rel" and "project_operation relations n attrs = Inr (Some r)"
  shows "well_formed r \<longleftrightarrow> tuples r = [] \<or> set attrs \<subseteq> set (attributes rel)"
proof -
  from assms have p: "project_rel rel attrs = Inr r"
    by (auto simp: project_operation_def split: sum.splits)
  from project_rel_lengths [OF p]
  have a: "attributes r = attrs"
    and l: "\<forall>t\<in>set (tuples r).
      length t = length (filter (\<lambda>a. a \<in> set (attributes rel)) attrs)"
    by auto
  show ?thesis
  proof (cases "tuples r")
    case Nil
    then show ?thesis by (simp add: well_formed_iff)
  next
    case (Cons t ts)
    with l have "well_formed r \<longleftrightarrow>
        length (filter (\<lambda>a. a \<in> set (attributes rel)) attrs) = length attrs"
      by (auto simp: well_formed_iff a)
    with Cons show ?thesis by (auto simp: length_filter_full)
  qed
qed

text \<open>
  C1, as the code has it. Taken over relations of the store that satisfy the invariant:
  select, union, intersection and difference return a relation that satisfies it; join
  does when the schema of the second relation repeats no name; the result of project
  satisfies it exactly when it has no tuple or every requested attribute is in the schema
  of the source. The definition parser stores a relation that satisfies it exactly when
  every tuple line has as many comma-separated values as the header has attributes.
\<close>

theorem arity_invariant_preserved:
  assumes "relations n1 = Some r1" and "relations n2 = Some r2"
    and "well_formed r1" and "well_formed r2"
  shows "(select_operation relations n1 c = Inr (Some r) \<longrightarrow> well_formed r) \<and>
    (project_operation relations n1 attrs = Inr (Some r) \<longrightarrow>
       (well_formed r \<longleftrightarrow> tuples r = [] \<or> set attrs \<subseteq> set (attributes r1))) \<and>
    (distinct (attributes r2) \<longrightarrow> join_operation relations n1 n2 = Inr (Some r) \<longrightarrow>
       well_formed r) \<and>
    (union_operation relations n1 n2 = Some r \<longrightarrow> well_formed r) \<and>
    (intersection_operation relations n1 n2 = Some r \<longrightarrow> well_formed r) \<and>
    (difference_operation relations n1 n2 = Some r \<longrightarrow> well_formed r) \<and>
    (rx_match header_re text = Some (name # g2 # gs) \<and>
     str_find CHR ''{'' text = Some start \<and> str_rfind CHR ''}'' text = Some end \<longrightarrow>
       (\<exists>rel. parse_relation relations text name = Some rel \<and>
          (well_formed rel \<longleftrightarrow>
             list_all (\<lambda>l. length (str_split '','' l) = length (str_split '','' g2))
               (tuple_lines (strip (str_slice text (start + 1) end))))))"
  using select_operation_well_formed [of relations n1 r1 c r]
    project_operation_well_formed_iff [of relations n1 r1 attrs r]
    join_operation_well_formed [of relations n1 r1 n2 r2 r]
    set_operations_well_formed(1) [of relations n1 r1 n2 r2 r]
    set_operations_well_formed(2) [of relations n1 r1 n2 r2 r]
    set_operations_well_formed(3) [of relations n1 r1 n2 r2 r]
    parse_relation_well_formed [of "text" name g2 gs start "end" relations]
    assms
  by blast

theorem arity_invariant_preserved_witness:
  "sample_store ''R'' = Some rel_ab \<and> sample_store ''S'' = Some rel_ab2 \<and>
   sample_store ''T'' = Some rel_bc \<and>
   well_formed rel_ab \<and> well_formed rel_ab2 \<and> well_formed rel_bc \<and>
   distinct (attributes rel_bc) \<and>
   select_operation sample_store ''R'' ''b>2'' =
     Inr (Some \<lparr>attributes = [''a'', ''b''], tuples = [[PInt 1, PInt 3]]\<rparr>) \<and>
   well_formed \<lparr>attributes = [''a'', ''b''], tuples = [[PInt 1, PInt 3]]\<rparr> \<and>
   project_operation sample_store ''R'' [''b''] =
     Inr (Some \<lparr>attributes = [''b''], tuples = [[PInt 2], [PInt 3]]\<rparr>) \<and>
   well_formed \<lparr>attributes = [''b''], tuples = [[PInt 2], [PInt 3]]\<rparr> \<and>
   join_operation sample_store ''R'' ''T'' =
     Inr (Some \<lparr>attributes = [''a'', ''b'', ''c''], tuples = [[PInt 1, PInt 2, PStr ''x'']]\<rparr>) \<and>
   well_formed \<lparr>attributes = [''a'', ''b'', ''c''], tuples = [[PInt 1, PInt 2, PStr ''x'']]\<rparr> \<and>
   union_operation sample_store ''R'' ''S'' =
     Some \<lparr>attributes = [''a'', ''b''],
            tuples = [[PInt 1, PInt 2], [PInt 1, PInt 3], [PInt 4, PInt 5]]\<rparr> \<and>
   intersection_operation sample_store ''R'' ''S'' =
     Some \<lparr>attributes = [''a'', ''b''], tuples = [[PInt 1, PInt 3]]\<rparr> \<and>
   difference_operation sample_store ''R'' ''S'' =
     Some \<lparr>attributes = [''a'', ''b''], tuples = [[PInt 1, PInt 2]]\<rparr> \<and>
   well_formed \<lparr>attributes = [''a'', ''b''],
                tuples = [[PInt 1, PInt 2], [PInt 1, PInt 3], [PInt 4, PInt 5]]\<rparr> \<and>
   well_formed \<lparr>attributes = [''a'', ''b''], tuples = [[PInt 1, PInt 2]]\<rparr> \<and>
   rx_match header_re ''U (a, b) = {1, 2}'' = Some [''U'', ''a, b''] \<and>
   str_find CHR ''{'' ''U (a, b) = {1, 2}'' = Some 11 \<and>
   str_rfind CHR ''}'' ''U (a, b) = {1, 2}'' = Some 16 \<and>
   parse_relation sample_store ''U (a, b) = {1, 2}'' ''U'' =
     Some \<lparr>attributes = [''a'', ''b''], tuples = [[PInt 1, PInt 2]]\<rparr>"
proof -
  let ?sel = "\<lparr>attributes = [''a'', ''b''], tuples = [[PInt 1, PInt 3]]\<rparr>"
  let ?prj = "\<lparr>attributes = [''b''], tuples = [[PInt 2], [PInt 3]]\<rparr>"
  let ?joi = "\<lparr>attributes = [''a'', ''b'', ''c''], tuples = [[PInt 1, PInt 2, PStr ''x'']]\<rparr>"
  let ?uni = "\<lparr>attributes = [''a'', ''b''],
      tuples = [[PInt 1, PInt 2], [PInt 1, PInt 3], [PInt 4, PInt 5]]\<rparr>"
  let ?dif = "\<lparr>attributes = [''a'', ''b''], tuples = [[PInt 1, PInt 2]]\<rparr>"
  let ?txt = "''U (a, b) = {1, 2}''"
  have h1: "sample_store ''R'' = Some rel_ab" by (simp add: sample_store_def)
  have h2: "sample_store ''T'' = Some rel_bc" by (simp add: sample_store_def)
  have h2': "sample_store ''S'' = Some rel_ab2" by (simp add: sample_store_def)
  have h3: "well_formed rel_ab" by (simp add: well_formed_def rel_ab_def)
  have h4: "well_formed rel_bc" by (simp add: well_formed_def rel_bc_def)
  have h4': "well_formed rel_ab2" by (simp add: well_formed_def rel_ab2_def)
  have h5: "distinct (attributes rel_bc)" by (simp add: rel_bc_def)
  have h6: "set [''b''] \<subseteq> set (attributes rel_ab)" by (simp add: rel_ab_def)
  have s: "select_operation sample_store ''R'' ''b>2'' = Inr (Some ?sel)" by code_simp
  have p: "project_operation sample_store ''R'' [''b''] = Inr (Some ?prj)" by code_simp
  have j: "join_operation sample_store ''R'' ''T'' = Inr (Some ?joi)" by code_simp
  have u: "union_operation sample_store ''R'' ''S'' = Some ?uni" by code_simp
  have n: "intersection_operation sample_store ''R'' ''S'' = Some ?sel" by code_simp
  have d: "difference_operation sample_store ''R'' ''S'' = Some ?dif" by code_simp
  have m: "rx_match header_re ?txt = Some [''U'', ''a, b'']" by code_simp
  have f: "str_find CHR ''{'' ?txt = Some 11" by code_simp
  have r: "str_rfind CHR ''}'' ?txt = Some 16" by code_simp
  have st: "parse_relation sample_store ?txt ''U'' = Some ?dif" by code_simp
  from arity_invariant_preserved [OF h1 h2 h3 h4, of "''b>2''" ?sel] s
  have ws: "well_formed ?sel" by blast
  from arity_invariant_preserved [OF h1 h2 h3 h4, of _ ?prj "[''b'']"] p h6
  have wp: "well_formed ?prj" by blast
  from arity_invariant_preserved [OF h1 h2 h3 h4, of _ ?joi] j h5
  have wj: "well_formed ?joi" by blast
  from arity_invariant_preserved [OF h1 h2' h3 h4', of _ ?uni] u
  have wu: "well_formed ?uni" by blast
  from arity_invariant_preserved [OF h1 h2' h3 h4', of _ ?dif] d
  have wd: "well_formed ?dif" by blast
  from arity_invariant_preserved [OF h1 h2' h3 h4', of _ _ _ ?txt "''U''" "''a, b''" "[]" 11 16]
    m f r
  have "\<exists>rel. parse_relation sample_store ?txt ''U'' = Some rel" by blast
  with h1 h2 h2' h3 h4 h4' h5 s p j u n d m f r st ws wp wj wu wd show ?thesis by blast
qed

theorem arity_invariant_counterexample:
  "sample_store ''R'' = Some rel_ab \<and> well_formed rel_ab \<and>
   project_operation sample_store ''R'' [''a'', ''z''] =
     Inr (Some \<lparr>attributes = [''a'', ''z''], tuples = [[PInt 1]]\<rparr>) \<and>
   \<not> well_formed \<lparr>attributes = [''a'', ''z''], tuples = [[PInt 1]]\<rparr> \<and>
   parse_relation Map.empty ''R (a, b) = {1}'' ''R'' =
     Some \<lparr>attributes = [''a'', ''b''], tuples = [[PInt 1]]\<rparr> \<and>
   \<not> well_formed \<lparr>attributes = [''a'', ''b''], tuples = [[PInt 1]]\<rparr>"
  by code_simp

section \<open>Values of a tuple line\<close>

lemma rev_dropWhile_takeWhile:
  "rev (dropWhile p (rev xs)) @ rev (takeWhile p (rev xs)) = xs"
proof -
  have "rev (takeWhile p (rev xs) @ dropWhile p (rev xs)) = rev (rev xs)"
    by (simp only: takeWhile_dropWhile_id)
  then show ?thesis by (simp only: rev_append rev_rev_ident)
qed

lemma strip_with_decomp:
  "\<exists>pre suf. s = pre @ strip_with p s @ suf \<and> (\<forall>c\<in>set pre. p c) \<and> (\<forall>c\<in>set suf. p c)"
proof -
  let ?d = "dropWhile p s"
  have 1: "s = takeWhile p s @ ?d" by simp
  have 2: "?d = strip_with p s @ rev (takeWhile p (rev ?d))"
    unfolding strip_with_def by (rule rev_dropWhile_takeWhile [symmetric])
  have 3: "\<forall>c\<in>set (takeWhile p s). p c" by (auto dest: set_takeWhileD)
  have 4: "\<forall>c\<in>set (rev (takeWhile p (rev ?d))). p c" by (auto dest: set_takeWhileD)
  from 1 2 have "s = takeWhile p s @ strip_with p s @ rev (takeWhile p (rev ?d))" by simp
  with 3 4 show ?thesis by blast
qed

lemma strip_with_ends:
  assumes "strip_with p s \<noteq> []"
  shows "\<not> p (hd (strip_with p s)) \<and> \<not> p (last (strip_with p s))"
proof -
  let ?d = "dropWhile p s"
  let ?e = "dropWhile p (rev ?d)"
  from assms have e: "?e \<noteq> []" by (simp add: strip_with_def)
  then have "\<not> p (hd ?e)" by (rule hd_dropWhile)
  moreover have "last (strip_with p s) = hd ?e" using e by (simp add: strip_with_def last_rev)
  ultimately have l: "\<not> p (last (strip_with p s))" by simp
  have d: "?d \<noteq> []"
  proof
    assume a: "?d = []"
    have "?e = dropWhile p (rev [])" by (simp only: a)
    with e show False by simp
  qed
  then have nd: "\<not> p (hd ?d)" by (rule hd_dropWhile)
  have "?d = strip_with p s @ rev (takeWhile p (rev ?d))"
    unfolding strip_with_def by (rule rev_dropWhile_takeWhile [symmetric])
  with assms have "hd ?d = hd (strip_with p s)" by (metis hd_append2)
  with nd l show ?thesis by simp
qed

text \<open>
  C9, as the code has it. The definition parser trims the whitespace around each
  comma-separated value and then removes every double quote at either end, however many
  there are; what is left neither begins nor ends with a double quote. It is stored as an
  integer when it parses as one, and as that text otherwise.
\<close>

theorem tuple_line_value:
  assumes "k < length (str_split '','' l)"
  shows "\<exists>pre w suf. strip (str_split '','' l ! k) = pre @ w @ suf \<and>
           set pre \<subseteq> {CHR 0x22} \<and> set suf \<subseteq> {CHR 0x22} \<and>
           (w = [] \<or> (hd w \<noteq> CHR 0x22 \<and> last w \<noteq> CHR 0x22)) \<and>
           parse_tuple_line l ! k = (case py_int w of Some i \<Rightarrow> PInt i | None \<Rightarrow> PStr w)"
proof -
  let ?f = "strip (str_split '','' l ! k)"
  let ?w = "strip_dquote ?f"
  from strip_with_decomp [of ?f "\<lambda>c. c = CHR 0x22"]
  obtain pre suf where "?f = pre @ ?w @ suf" "set pre \<subseteq> {CHR 0x22}" "set suf \<subseteq> {CHR 0x22}"
    by (auto simp: strip_dquote_def)
  moreover have "?w = [] \<or> (hd ?w \<noteq> CHR 0x22 \<and> last ?w \<noteq> CHR 0x22)"
    using strip_with_ends [of "\<lambda>c. c = CHR 0x22" ?f] by (auto simp: strip_dquote_def)
  moreover have "parse_tuple_line l ! k = (case py_int ?w of Some i \<Rightarrow> PInt i | None \<Rightarrow> PStr ?w)"
    using assms by (simp add: parse_tuple_line_def convert_def)
  ultimately show ?thesis by blast
qed

theorem tuple_line_value_witness:
  "0 < length (str_split '','' [CHR 0x22, CHR 0x22, CHR ''x'', CHR 0x22, CHR 0x22]) \<and>
   (\<exists>pre w suf.
      strip (str_split '','' [CHR 0x22, CHR 0x22, CHR ''x'', CHR 0x22, CHR 0x22] ! 0) =
        pre @ w @ suf \<and>
      set pre \<subseteq> {CHR 0x22} \<and> set suf \<subseteq> {CHR 0x22} \<and>
      (w = [] \<or> (hd w \<noteq> CHR 0x22 \<and> last w \<noteq> CHR 0x22)) \<and>
      parse_tuple_line [CHR 0x22, CHR 0x22, CHR ''x'', CHR 0x22, CHR 0x22] ! 0 =
        (case py_int w of Some i \<Rightarrow> PInt i | None \<Rightarrow> PStr w))"
proof -
  have h: "0 < length (str_split '','' [CHR 0x22, CHR 0x22, CHR ''x'', CHR 0x22, CHR 0x22])"
    by (simp add: str_split_def)
  from tuple_line_value [OF h] h show ?thesis by blast
qed

theorem one_quote_layer_counterexample:
  "parse_tuple_line [CHR 0x22, CHR 0x22, CHR ''x'', CHR 0x22, CHR 0x22] = [PStr ''x''] \<and>
   parse_tuple_line [CHR 0x22, CHR 0x22, CHR ''x'', CHR 0x22, CHR 0x22] \<noteq>
     [PStr [CHR 0x22, CHR ''x'', CHR 0x22]] \<and>
   parse_tuple_line [CHR 0x22, CHR 0x22, CHR ''7'', CHR 0x22, CHR 0x22] = [PInt 7]"
  by code_simp

section \<open>Queries\<close>

lemma rx_match_lit_prefix: "rx_match (lit kw @ r) s = Some gs \<Longrightarrow> prefix kw s"
  by (induction kw arbitrary: s) (auto simp: lit_def split: list.splits if_splits)

lemma rx_match_Chr_mem: "rx_match r s = Some gs \<Longrightarrow> Chr c \<in> set r \<Longrightarrow> c \<in> set s"
proof (induction r arbitrary: s gs)
  case Nil
  then show ?case by simp
next
  case (Cons a r)
  show ?case
  proof (cases a)
    case (Chr c')
    with Cons.prems obtain xs where s: "s = c' # xs" and m: "rx_match r xs = Some gs"
      by (auto split: list.splits if_splits)
    show ?thesis
    proof (cases "c = c'")
      case True
      with s show ?thesis by simp
    next
      case False
      with Cons.prems(2) Chr have "Chr c \<in> set r" by simp
      from Cons.IH [OF m this] s show ?thesis by simp
    qed
  next
    case Eos
    with Cons.prems have "rx_match r s = Some gs" "Chr c \<in> set r" by (auto split: if_splits)
    then show ?thesis by (rule Cons.IH)
  next
    case (Cls p mn greedy cap)
    let ?f = "\<lambda>k. map_option (\<lambda>gs. if cap then take k s # gs else gs) (rx_match r (drop k s))"
    from Cons.prems(1) obtain ks where "first_some ?f ks = Some gs"
      unfolding Cls rx_match.simps Let_def by blast
    from first_some_SomeD [OF this] obtain k gs' where "rx_match r (drop k s) = Some gs'"
      by auto
    moreover from Cons.prems(2) Cls have "Chr c \<in> set r" by simp
    ultimately have "c \<in> set (drop k s)" by (rule Cons.IH)
    then show ?thesis by (rule in_set_dropD)
  qed
qed

lemma set_strip_with: "set (strip_with p s) \<subseteq> set s"
  using strip_with_decomp [of s p] by (metis Un_iff set_append subsetI)

lemma nested_re_needs_paren:
  "CHR ''('' \<notin> set s \<Longrightarrow> rx_match (nested_re kw) s = None"
proof (rule ccontr)
  assume n: "CHR ''('' \<notin> set s" and "rx_match (nested_re kw) s \<noteq> None"
  then obtain gs where "rx_match (nested_re kw) s = Some gs" by auto
  moreover have "Chr CHR ''('' \<in> set (nested_re kw)" by (simp add: nested_re_def)
  ultimately have "CHR ''('' \<in> set s" by (rule rx_match_Chr_mem)
  with n show False by simp
qed

lemma binary_re_needs_keyword: "\<not> prefix kw s \<Longrightarrow> rx_match (binary_re kw) s = None"
  using rx_match_lit_prefix [of kw _ s] unfolding binary_re_def
  by (cases "rx_match (lit kw @ [Cls is_space 1 True False, Cls is_word 1 True True,
        Cls is_space 1 True False, Cls is_word 1 True True]) s") auto

lemma nested_re_needs_keyword: "\<not> prefix kw s \<Longrightarrow> rx_match (nested_re kw) s = None"
  using rx_match_lit_prefix [of kw _ s] unfolding nested_re_def
  by (cases "rx_match (lit kw @ [Cls is_space 1 True False, Cls is_dot 1 False True,
        Cls is_space 0 True False, Chr CHR ''('', Cls is_space 0 True False,
        Cls is_dot 1 True True, Cls is_space 0 True False, Chr CHR '')'']) s") auto

lemma parse_binary_no_keyword:
  assumes "\<not> prefix ''join'' s" "\<not> prefix ''union'' s"
    "\<not> prefix ''intersection'' s" "\<not> prefix ''difference'' s"
  shows "parse_binary relations s = Inr None"
  using assms by (simp add: parse_binary_def binary_re_needs_keyword)

lemma parse_query_no_nested:
  assumes "rx_match (nested_re ''project'') (strip q) = None"
    and "rx_match (nested_re ''select'') (strip q) = None"
  shows "parse_query relations q = (parse_binary relations (strip q), relations)"
  using assms by (simp add: parse_query.simps parse_from_select.simps Let_def)

lemma unparenthesized_rejected:
  assumes "CHR ''('' \<notin> set q"
    and "prefix ''select'' (strip q) \<or> prefix ''project'' (strip q)"
  shows "parse_query relations q = (Inr None, relations)"
proof -
  from assms(1) set_strip_with [of is_space q] have n: "CHR ''('' \<notin> set (strip q)"
    by (auto simp: strip_def)
  from assms(2) have "\<not> prefix ''join'' (strip q)" "\<not> prefix ''union'' (strip q)"
    "\<not> prefix ''intersection'' (strip q)" "\<not> prefix ''difference'' (strip q)"
    by (auto simp: prefix_def)
  then have "parse_binary relations (strip q) = Inr None" by (rule parse_binary_no_keyword)
  with parse_query_no_nested [OF nested_re_needs_paren [OF n] nested_re_needs_paren [OF n]]
  show ?thesis by simp
qed

lemma is_word_not_space: "is_word c \<Longrightarrow> \<not> is_space c"
  unfolding is_space_def by (auto simp: is_word_def)

lemma is_word_plain: "is_word c \<Longrightarrow> is_dot c \<and> c \<noteq> CHR ''('' \<and> c \<noteq> CHR '')''"
  unfolding is_dot_def by (auto simp: is_word_def)

lemma strip_with_id:
  assumes "s \<noteq> []" and "\<not> p (hd s)" and "\<not> p (last s)"
  shows "strip_with p s = s"
proof -
  from assms(1,2) have 1: "dropWhile p s = s" by (cases s) auto
  from assms(1,3) have "\<not> p (hd (rev s))" by (simp add: hd_rev)
  with assms(1) have "dropWhile p (rev s) = rev s" by (cases "rev s") auto
  with 1 show ?thesis by (simp add: strip_with_def)
qed

lemma first_some_None: "\<forall>x\<in>set xs. f x = None \<Longrightarrow> first_some f xs = None"
  by (induction xs) auto

lemma first_some_skip:
  "\<forall>x\<in>set xs. f x = None \<Longrightarrow> f k = Some y \<Longrightarrow> first_some f (xs @ k # ys) = Some y"
  by (induction xs) auto

declare rx_match.simps(4) [simp del]

lemma upt_split: "mn \<le> k \<Longrightarrow> k \<le> n \<Longrightarrow> [mn..<Suc n] = [mn..<k] @ k # [Suc k..<Suc n]"
proof -
  assume a: "mn \<le> k" "k \<le> n"
  then have "[mn..<Suc n] = [mn..<k] @ [k..<Suc n]"
    using upt_add_eq_append [of mn k "Suc n - k"] by simp
  moreover have "[k..<Suc n] = k # [Suc k..<Suc n]"
    using a by (simp add: upt_conv_Cons del: upt_Suc)
  ultimately show ?thesis by simp
qed

lemma rx_match_lit: "rx_match (lit kw @ r) (kw @ s) = rx_match r s"
  by (induction kw) (auto simp: lit_def)

lemma rx_match_Cls_exact:
  assumes "length (takeWhile p s) = mn"
  shows "rx_match (Cls p mn g cap # r) s =
           map_option (\<lambda>gs. if cap then take mn s # gs else gs) (rx_match r (drop mn s))"
proof -
  have "[mn..<Suc mn] = [mn]" by simp
  then show ?thesis using assms
    by (cases "rx_match r (drop mn s)") (simp_all add: Let_def rx_match.simps(4))
qed

lemma rx_match_Cls_lazy:
  assumes "mn \<le> k" and "k \<le> length (takeWhile p s)"
    and "\<forall>j. mn \<le> j \<and> j < k \<longrightarrow> rx_match r (drop j s) = None"
    and "rx_match r (drop k s) = Some gs"
  shows "rx_match (Cls p mn False cap # r) s = Some (if cap then take k s # gs else gs)"
proof -
  let ?n = "length (takeWhile p s)"
  let ?f = "\<lambda>k. map_option (\<lambda>gs. if cap then take k s # gs else gs) (rx_match r (drop k s))"
  have "[mn..<Suc ?n] = [mn..<k] @ k # [Suc k..<Suc ?n]"
    using assms(1,2) by (rule upt_split)
  moreover have "\<forall>j\<in>set [mn..<k]. ?f j = None" using assms(3) by simp
  moreover have "?f k = Some (if cap then take k s # gs else gs)" using assms(4) by simp
  ultimately have "first_some ?f [mn..<Suc ?n] = Some (if cap then take k s # gs else gs)"
    by (simp only: first_some_skip)
  then show ?thesis by (simp add: Let_def rx_match.simps(4) del: upt_Suc)
qed

lemma rx_match_Cls_greedy:
  assumes "mn \<le> k" and "k \<le> length (takeWhile p s)"
    and "\<forall>j. k < j \<and> j \<le> length (takeWhile p s) \<longrightarrow> rx_match r (drop j s) = None"
    and "rx_match r (drop k s) = Some gs"
  shows "rx_match (Cls p mn True cap # r) s = Some (if cap then take k s # gs else gs)"
proof -
  let ?n = "length (takeWhile p s)"
  let ?f = "\<lambda>k. map_option (\<lambda>gs. if cap then take k s # gs else gs) (rx_match r (drop k s))"
  have "[mn..<Suc ?n] = [mn..<k] @ k # [Suc k..<Suc ?n]"
    using assms(1,2) by (rule upt_split)
  then have "rev [mn..<Suc ?n] = rev [Suc k..<Suc ?n] @ k # rev [mn..<k]" by simp
  moreover have "\<forall>j\<in>set (rev [Suc k..<Suc ?n]). ?f j = None"
    using assms(3) by (auto simp del: upt_Suc)
  moreover have "?f k = Some (if cap then take k s # gs else gs)" using assms(4) by simp
  ultimately have "first_some ?f (rev [mn..<Suc ?n]) = Some (if cap then take k s # gs else gs)"
    by (simp only: first_some_skip)
  then show ?thesis by (simp add: Let_def rx_match.simps(4) del: upt_Suc)
qed

lemma take_takeWhile_all:
  assumes "k \<le> length (takeWhile p s)"
  shows "\<forall>c\<in>set (take k s). p c"
proof -
  have "take k s = take k (takeWhile p s @ dropWhile p s)" by simp
  also have "\<dots> = take k (takeWhile p s)" using assms by (simp only: take_append) simp
  finally have "set (take k s) \<subseteq> set (takeWhile p s)" by (simp add: set_take_subset)
  then show ?thesis by (auto dest: set_takeWhileD)
qed

lemma rx_match_Cls_Chr_shape:
  assumes "rx_match (Cls p mn g False # Chr c # r) s = Some gs"
  shows "\<exists>w rest. s = w @ c # rest \<and> (\<forall>ch\<in>set w. p ch)"
proof -
  let ?n = "length (takeWhile p s)"
  let ?f = "\<lambda>k. map_option (\<lambda>gs. if False then take k s # gs else gs)
      (rx_match (Chr c # r) (drop k s))"
  define ks where "ks = (if g then rev [mn..<Suc ?n] else [mn..<Suc ?n])"
  have fs: "first_some ?f ks = Some gs"
    using assms unfolding ks_def rx_match.simps(4) Let_def .
  from first_some_SomeD [OF fs] obtain k where k: "k \<in> set ks" and fk: "?f k = Some gs"
    by blast
  from k have kn: "k \<le> ?n" by (auto simp: ks_def split: if_splits)
  from fk obtain rest where d: "drop k s = c # rest"
    by (cases "drop k s") (auto split: if_splits)
  have "s = take k s @ drop k s" by simp
  with d have "s = take k s @ c # rest" by simp
  with take_takeWhile_all [OF kn] show ?thesis by blast
qed

lemma no_paren_after_word:
  assumes u: "u \<noteq> []" "\<not> is_space (last u)" "c \<notin> set u"
  shows "rx_match (Cls is_space mn g False # Chr c # r) (u @ tail) = None"
proof (rule ccontr)
  assume "rx_match (Cls is_space mn g False # Chr c # r) (u @ tail) \<noteq> None"
  then obtain gs where "rx_match (Cls is_space mn g False # Chr c # r) (u @ tail) = Some gs"
    by auto
  from rx_match_Cls_Chr_shape [OF this] obtain w rest
    where e: "u @ tail = w @ c # rest" and w: "\<forall>ch\<in>set w. is_space ch" by blast
  show False
  proof (cases "length w < length u")
    case True
    from e have "(u @ tail) ! length w = (w @ c # rest) ! length w" by simp
    with True have "u ! length w = c" by (simp add: nth_append)
    with True u(3) show False by (metis nth_mem)
  next
    case False
    from e have "take (length u) (u @ tail) = take (length u) (w @ c # rest)" by simp
    with False have "u = take (length u) w" by simp
    then have "set u \<subseteq> set w" by (metis set_take_subset)
    with u(1) have "last u \<in> set w" by auto
    with w u(2) show False by simp
  qed
qed

lemma rx_match_nested_operand:
  assumes x: "x \<noteq> []" "\<not> is_space (hd x)" "\<not> is_space (last x)"
      "CHR ''('' \<notin> set x" "CHR 0x0A \<notin> set x"
    and name: "name \<noteq> []" "\<not> is_space (hd name)" "CHR 0x0A \<notin> set name"
  shows "rx_match (nested_re kw) (kw @ '' '' @ x @ '' ('' @ name @ '')'') = Some [x, name]"
proof -
  let ?tail = "[Cls is_space 0 True False, Chr CHR '')'']"
  let ?g2 = "Cls is_dot 1 True True # ?tail"
  let ?par = "Chr CHR ''('' # Cls is_space 0 True False # ?g2"
  let ?ws2 = "Cls is_space 0 True False # ?par"
  let ?g1 = "Cls is_dot 1 False True # ?ws2"
  from name have hn: "\<not> is_space (hd name)" by simp
  have sp: "is_space CHR '' ''" "\<not> is_space CHR ''(''" "\<not> is_space CHR '')''"
    "is_dot CHR '')''" "is_dot CHR '' ''" "is_dot CHR ''(''"
    by (simp_all add: is_space_def is_dot_def)
  have dots_name: "\<forall>c\<in>set name. is_dot c" using name(3) by (auto simp: is_dot_def)
  have dots_x: "\<forall>c\<in>set x. is_dot c" using x(5) by (auto simp: is_dot_def)
  \<comment> \<open>the closing parenthesis\<close>
  have t1: "rx_match ?tail '')'' = Some []"
    using rx_match_Cls_exact [of is_space "'')''" 0 True False "[Chr CHR '')'']"] sp by simp
  have t0: "rx_match ?tail [] = None"
    using rx_match_Cls_exact [of is_space "[]" 0 True False "[Chr CHR '')'']"] by simp
  \<comment> \<open>the second group takes the operand and leaves the last parenthesis\<close>
  have tw2: "takeWhile is_dot (name @ '')'') = name @ '')''"
    using dots_name sp by (simp add: takeWhile_append2)
  have g2: "rx_match ?g2 (name @ '')'') = Some [name]"
  proof -
    have "rx_match ?g2 (name @ '')'') =
        Some (if True then take (length name) (name @ '')'') # [] else [])"
    proof (rule rx_match_Cls_greedy)
      show "1 \<le> length name" using name(1) by (simp add: Suc_le_eq)
      show "length name \<le> length (takeWhile is_dot (name @ '')''))" by (simp add: tw2)
      show "\<forall>j. length name < j \<and> j \<le> length (takeWhile is_dot (name @ '')'')) \<longrightarrow>
          rx_match ?tail (drop j (name @ '')'')) = None"
      proof (intro allI impI)
        fix j assume "length name < j \<and> j \<le> length (takeWhile is_dot (name @ '')''))"
        then have "j = Suc (length name)" by (simp add: tw2)
        with t0 show "rx_match ?tail (drop j (name @ '')'')) = None" by simp
      qed
      show "rx_match ?tail (drop (length name) (name @ '')'')) = Some []" using t1 by simp
    qed
    then show ?thesis by simp
  qed
  have tw3: "length (takeWhile is_space (name @ '')'')) = 0"
    using name(1) hn by (cases name) auto
  have ws3: "rx_match (Cls is_space 0 True False # ?g2) (name @ '')'') = Some [name]"
    using rx_match_Cls_exact [OF tw3, of True False ?g2] g2 by simp
  have par: "rx_match ?par (''('' @ name @ '')'') = Some [name]" using ws3 by simp
  have tw4: "takeWhile is_space ('' ('' @ name @ '')'') = '' ''" using sp by simp
  have ws2: "rx_match ?ws2 ('' ('' @ name @ '')'') = Some [name]"
  proof -
    have "rx_match ?ws2 ('' ('' @ name @ '')'') = Some (if False then take 1 ('' ('' @ name @ '')'') # [name] else [name])"
    proof (rule rx_match_Cls_greedy)
      show "0 \<le> (1::nat)" by simp
      show "1 \<le> length (takeWhile is_space ('' ('' @ name @ '')''))" by (simp add: sp)
      show "\<forall>j. 1 < j \<and> j \<le> length (takeWhile is_space ('' ('' @ name @ '')'')) \<longrightarrow>
          rx_match ?par (drop j ('' ('' @ name @ '')'')) = None"
        by (simp add: sp)
      show "rx_match ?par (drop 1 ('' ('' @ name @ '')'')) = Some [name]" using par by simp
    qed
    then show ?thesis by simp
  qed
  \<comment> \<open>the first group is lazy: it stops at the first place from which the rest matches\<close>
  let ?rest = "'' ('' @ name @ '')''"
  have tw5: "length x \<le> length (takeWhile is_dot (x @ ?rest))"
    using dots_x by (simp add: takeWhile_append2)
  have g1: "rx_match ?g1 (x @ ?rest) = Some [x, name]"
  proof -
    have "rx_match ?g1 (x @ ?rest) = Some (if True then take (length x) (x @ ?rest) # [name] else [name])"
    proof (rule rx_match_Cls_lazy)
      show "1 \<le> length x" using x(1) by (simp add: Suc_le_eq)
      show "length x \<le> length (takeWhile is_dot (x @ ?rest))" by (rule tw5)
      show "\<forall>j. 1 \<le> j \<and> j < length x \<longrightarrow> rx_match ?ws2 (drop j (x @ ?rest)) = None"
      proof (intro allI impI)
        fix j assume j: "1 \<le> j \<and> j < length x"
        then have "drop j x \<noteq> []" "\<not> is_space (last (drop j x))" "CHR ''('' \<notin> set (drop j x)"
          using x(3,4) by (auto dest: in_set_dropD)
        from no_paren_after_word [OF this, where mn = 0 and g = True
            and r = "Cls is_space 0 True False # ?g2" and tail = ?rest]
        show "rx_match ?ws2 (drop j (x @ ?rest)) = None" using j by simp
      qed
      show "rx_match ?ws2 (drop (length x) (x @ ?rest)) = Some [name]" using ws2 by simp
    qed
    then show ?thesis by simp
  qed
  have tw6: "length (takeWhile is_space ('' '' @ x @ ?rest)) = 1"
    using x(1,2) sp by (cases x) auto
  have ws1: "rx_match (Cls is_space 1 True False # ?g1) ('' '' @ x @ ?rest) = Some [x, name]"
    using rx_match_Cls_exact [OF tw6, of True False ?g1] g1 by simp
  have "rx_match (nested_re kw) (kw @ '' '' @ x @ ?rest)
      = rx_match (Cls is_space 1 True False # ?g1) ('' '' @ x @ ?rest)"
    unfolding nested_re_def by (rule rx_match_lit)
  with ws1 show ?thesis by simp
qed

lemma rx_match_nested:
  assumes x: "x \<noteq> []" "\<not> is_space (hd x)" "\<not> is_space (last x)"
      "CHR ''('' \<notin> set x" "CHR 0x0A \<notin> set x"
    and name: "name \<noteq> []" "\<forall>c\<in>set name. is_word c"
  shows "rx_match (nested_re kw) (kw @ '' '' @ x @ '' ('' @ name @ '')'') = Some [x, name]"
proof (rule rx_match_nested_operand [OF x name(1)])
  from name have "is_word (hd name)" by simp
  then show "\<not> is_space (hd name)" by (rule is_word_not_space)
  show "CHR 0x0A \<notin> set name" using name(2) is_word_plain by (auto simp: is_dot_def)
qed

lemma strip_keeps_keyword:
  assumes "kw \<noteq> []" and "\<forall>c\<in>set kw. \<not> is_space c"
  shows "prefix kw (strip (kw @ rest))"
proof -
  from assms have 1: "dropWhile is_space (kw @ rest) = kw @ rest" by (cases kw) auto
  have "\<exists>ys. dropWhile is_space (rev rest @ rev kw) = ys @ rev kw"
  proof (cases "\<forall>c\<in>set (rev rest). is_space c")
    case True
    then have "dropWhile is_space (rev rest @ rev kw) = dropWhile is_space (rev kw)"
      by (intro dropWhile_append2) auto
    also have "\<dots> = rev kw" using assms by (cases "rev kw") auto
    finally show ?thesis by simp
  next
    case False
    then obtain c where "c \<in> set (rev rest)" "\<not> is_space c" by blast
    then have "dropWhile is_space (rev rest @ rev kw) = dropWhile is_space (rev rest) @ rev kw"
      by (rule dropWhile_append1)
    then show ?thesis by blast
  qed
  then obtain ys where "dropWhile is_space (rev (kw @ rest)) = ys @ rev kw" by auto
  with 1 have "strip (kw @ rest) = kw @ rev ys" by (simp add: strip_def strip_with_def)
  then show ?thesis by simp
qed

lemma bare_re_name:
  assumes "name \<noteq> []" and "\<forall>c\<in>set name. is_word c"
  shows "rx_match bare_re name = Some []"
proof -
  have tw: "takeWhile is_word name = name" using assms(2) by simp
  have "rx_match bare_re name = Some (if False then take (length name) name # [] else [])"
    unfolding bare_re_def
  proof (rule rx_match_Cls_greedy)
    show "1 \<le> length name" using assms(1) by (simp add: Suc_le_eq)
    show "length name \<le> length (takeWhile is_word name)" by (simp add: tw)
    show "\<forall>j. length name < j \<and> j \<le> length (takeWhile is_word name) \<longrightarrow>
        rx_match [Eos] (drop j name) = None" by (simp add: tw)
    show "rx_match [Eos] (drop (length name) name) = Some []" by simp
  qed
  then show ?thesis by simp
qed

lemma strip_name:
  assumes "name \<noteq> []" and "\<forall>c\<in>set name. is_word c"
  shows "strip name = name"
  unfolding strip_def using assms is_word_not_space
  by (intro strip_with_id) auto

lemma strip_nested_form:
  assumes "kw \<noteq> []" and "\<not> is_space (hd kw)"
  shows "strip (kw @ '' '' @ x @ '' ('' @ name @ '')'') = kw @ '' '' @ x @ '' ('' @ name @ '')''"
  unfolding strip_def using assms
  by (intro strip_with_id) (auto simp: is_space_def)

lemma parse_query_project_form:
  assumes x: "x \<noteq> []" "\<not> is_space (hd x)" "\<not> is_space (last x)"
      "CHR ''('' \<notin> set x" "CHR 0x0A \<notin> set x"
    and name: "name \<noteq> []" "\<forall>c\<in>set name. is_word c"
  shows "parse_query relations (''project '' @ x @ '' ('' @ name @ '')'') =
           (project_operation relations name (split_attrs x), relations)"
proof -
  let ?q = "''project'' @ '' '' @ x @ '' ('' @ name @ '')''"
  have s: "strip ?q = ?q" by (rule strip_nested_form) (simp_all add: is_space_def)
  have m: "rx_match (nested_re ''project'') ?q = Some [x, name]"
    using x name by (rule rx_match_nested)
  have sx: "strip x = x" unfolding strip_def using x by (intro strip_with_id)
  have "parse_query relations ?q = (project_operation relations name (split_attrs x), relations)"
    using m bare_re_name [OF name] strip_name [OF name] sx
    by (simp add: parse_query.simps [of relations ?q] s Let_def del: append.simps)
  then show ?thesis by simp
qed

lemma parse_query_select_form:
  assumes x: "x \<noteq> []" "\<not> is_space (hd x)" "\<not> is_space (last x)"
      "CHR ''('' \<notin> set x" "CHR 0x0A \<notin> set x"
    and name: "name \<noteq> []" "\<forall>c\<in>set name. is_word c"
  shows "parse_query relations (''select '' @ x @ '' ('' @ name @ '')'') =
           (select_operation relations name x, relations)"
proof -
  let ?q = "''select'' @ '' '' @ x @ '' ('' @ name @ '')''"
  have s: "strip ?q = ?q" by (rule strip_nested_form) (simp_all add: is_space_def)
  have m: "rx_match (nested_re ''select'') ?q = Some [x, name]"
    using x name by (rule rx_match_nested)
  have n: "rx_match (nested_re ''project'') ?q = None"
    by (rule nested_re_needs_keyword) simp
  have sx: "strip x = x" unfolding strip_def using x by (intro strip_with_id)
  have "parse_query relations ?q = (select_operation relations name x, relations)"
    using m n bare_re_name [OF name] strip_name [OF name] sx
    by (simp add: parse_query.simps [of relations ?q] parse_from_select.simps [of relations ?q]
        s Let_def del: append.simps)
  then show ?thesis by simp
qed

text \<open>
  C2, as the code has it. The two nested rules demand a parenthesis, and no other rule
  begins with \<open>select\<close> or \<open>project\<close>: a query \<open>select c R\<close> or \<open>project as R\<close> written
  without parentheses is not recognized and returns the failure value, the store
  untouched. With the name in parentheses, \<open>select c (R)\<close> is the selection on \<open>R\<close> and
  \<open>project as (R)\<close> the projection on \<open>R\<close>; here \<open>c\<close> (or \<open>as\<close>) is a non-empty text on one
  line, without an opening parenthesis and without blanks at its ends, and \<open>R\<close> a
  non-empty word.
\<close>

theorem query_forms:
  "(CHR ''('' \<notin> set cond \<and> CHR ''('' \<notin> set name \<longrightarrow>
      parse_query relations (''select '' @ cond @ '' '' @ name) = (Inr None, relations) \<and>
      parse_query relations (''project '' @ cond @ '' '' @ name) = (Inr None, relations)) \<and>
   (x \<noteq> [] \<and> \<not> is_space (hd x) \<and> \<not> is_space (last x) \<and> CHR ''('' \<notin> set x \<and>
    CHR 0x0A \<notin> set x \<and> name \<noteq> [] \<and> (\<forall>c\<in>set name. is_word c) \<longrightarrow>
      parse_query relations (''select '' @ x @ '' ('' @ name @ '')'') =
        (select_operation relations name x, relations) \<and>
      parse_query relations (''project '' @ x @ '' ('' @ name @ '')'') =
        (project_operation relations name (split_attrs x), relations))"
proof -
  have neg: "parse_query relations (kw @ '' '' @ cond @ '' '' @ name) = (Inr None, relations)"
    if "CHR ''('' \<notin> set cond" "CHR ''('' \<notin> set name" "kw = ''select'' \<or> kw = ''project''"
    for kw
  proof (rule unparenthesized_rejected)
    show "CHR ''('' \<notin> set (kw @ '' '' @ cond @ '' '' @ name)" using that by auto
    have "prefix kw (strip (kw @ '' '' @ cond @ '' '' @ name))"
      using that(3) by (intro strip_keeps_keyword) (auto simp: is_space_def)
    with that(3) show "prefix ''select'' (strip (kw @ '' '' @ cond @ '' '' @ name)) \<or>
        prefix ''project'' (strip (kw @ '' '' @ cond @ '' '' @ name))" by auto
  qed
  from neg [of "''select''"] neg [of "''project''"]
    parse_query_select_form [of x name relations] parse_query_project_form [of x name relations]
  show ?thesis by simp
qed

theorem query_forms_witness:
  "CHR ''('' \<notin> set ''b>2'' \<and> CHR ''('' \<notin> set ''R'' \<and> ''b>2'' \<noteq> [] \<and>
   \<not> is_space (hd ''b>2'') \<and> \<not> is_space (last ''b>2'') \<and> CHR 0x0A \<notin> set ''b>2'' \<and>
   ''R'' \<noteq> [] \<and> is_word CHR ''R'' \<and>
   parse_query sample_store ''select b>2 R'' = (Inr None, sample_store) \<and>
   parse_query sample_store ''project b>2 R'' = (Inr None, sample_store) \<and>
   parse_query sample_store ''select b>2 (R)'' =
     (select_operation sample_store ''R'' ''b>2'', sample_store) \<and>
   parse_query sample_store ''project b>2 (R)'' =
     (project_operation sample_store ''R'' (split_attrs ''b>2''), sample_store)"
  using query_forms [of "''b>2''" "''R''" sample_store "''b>2''"]
  by (simp add: is_space_def is_word_def)

theorem query_forms_counterexample:
  "fst (parse_query sample_store ''select b>2 R'') = Inr None \<and>
   select_operation sample_store ''R'' ''b>2'' =
     Inr (Some \<lparr>attributes = [''a'', ''b''], tuples = [[PInt 1, PInt 3]]\<rparr>) \<and>
   fst (parse_query sample_store ''project a R'') = Inr None \<and>
   project_operation sample_store ''R'' [''a''] =
     Inr (Some \<lparr>attributes = [''a''], tuples = [[PInt 1]]\<rparr>)"
  by code_simp

section \<open>The store across an evaluation\<close>

lemma store_kept_refl: "store_kept relations (out, relations)"
  by (simp add: store_kept_def)

lemma store_kept_raise: "store_kept a (out, b) \<Longrightarrow> store_kept a (Inl e, b)"
  by (simp add: store_kept_def)

lemma store_kept_trans:
  assumes "store_kept a (Inr r, b)" and "store_kept b res"
  shows "store_kept a res"
proof -
  from assms(1) have b: "b = a \<or> b = a(temp_name := None)" by (simp add: store_kept_def)
  from assms have 1: "\<forall>n. n \<noteq> temp_name \<longrightarrow> snd res n = a n" by (simp add: store_kept_def)
  have 2: "snd res = a \<or> snd res = a(temp_name := None)" if "\<exists>r. fst res = Inr r"
  proof -
    from that assms(2) have "snd res = b \<or> snd res = b(temp_name := None)"
      by (simp add: store_kept_def)
    with b show ?thesis by auto
  qed
  from 1 2 show ?thesis by (simp add: store_kept_def)
qed

lemma store_kept_execute:
  "store_kept relations (execute_on_result relations operation_result operation_func)"
  by (auto simp: store_kept_def execute_on_result_def Let_def split: option.splits sum.splits)

lemma store_kept_parse:
  "store_kept relations (parse_query relations q)"
  "store_kept relations (parse_from_select relations query)"
proof (induction relations q and relations query rule: parse_query_parse_from_select.induct)
  case (1 relations q)
  let ?query = "strip q"
  show ?case
  proof (cases "rx_match (nested_re ''project'') ?query")
    case None
    with "1.IH"(1) [OF refl None] show ?thesis by (simp add: parse_query.simps)
  next
    case (Some gs)
    show ?thesis
    proof (cases gs)
      case Nil
      with "1.IH"(2) [OF refl Some Nil] Some show ?thesis by (simp add: parse_query.simps)
    next
      case (Cons g1 gs')
      show ?thesis
      proof (cases gs')
        case Nil
        with "1.IH"(3) [OF refl Some Cons Nil] Some Cons show ?thesis
          by (simp add: parse_query.simps)
      next
        case c2: (Cons g2 gs'')
        show ?thesis
        proof (cases "rx_match bare_re (strip g2) \<noteq> None")
          case True
          with Some Cons c2 show ?thesis
            by (simp add: parse_query.simps Let_def store_kept_refl)
        next
          case False
          note ih = "1.IH"(4) [OF refl Some Cons c2 refl refl False]
          obtain out rels1 where p: "parse_query relations (strip g2) = (out, rels1)"
            by (cases "parse_query relations (strip g2)")
          show ?thesis
          proof (cases out)
            case (Inl e)
            with Some Cons c2 False p ih show ?thesis
              by (simp add: parse_query.simps [of relations q] Let_def)
          next
            case (Inr b)
            show ?thesis
            proof (cases b)
              case None
              from "1.IH"(5) [OF refl Some Cons c2 refl refl False p [symmetric] Inr None]
              have "store_kept rels1 (parse_from_select rels1 ?query)" .
              with ih p Inr have "store_kept relations (parse_from_select rels1 ?query)"
                by (auto intro: store_kept_trans)
              with Some Cons c2 False p Inr None show ?thesis
                by (simp add: parse_query.simps [of relations q] Let_def)
            next
              case (Some inner_result)
              have "store_kept relations (execute_on_result rels1 (Some inner_result)
                  (\<lambda>rs n. project_operation rs n (split_attrs (strip g1))))"
                using ih p Inr store_kept_execute by (auto intro: store_kept_trans)
              with \<open>rx_match (nested_re ''project'') ?query = Some gs\<close> Cons c2 False p Inr Some
              show ?thesis
                by (simp add: parse_query.simps [of relations q] Let_def)
            qed
          qed
        qed
      qed
    qed
  qed
next
  case (2 relations query)
  show ?case
  proof (cases "rx_match (nested_re ''select'') query")
    case None
    then show ?thesis by (simp add: parse_from_select.simps store_kept_refl)
  next
    case (Some gs)
    show ?thesis
    proof (cases gs)
      case Nil
      with Some show ?thesis by (simp add: parse_from_select.simps store_kept_refl)
    next
      case (Cons g1 gs')
      show ?thesis
      proof (cases gs')
        case Nil
        with Some Cons show ?thesis by (simp add: parse_from_select.simps store_kept_refl)
      next
        case c2: (Cons g2 gs'')
        show ?thesis
        proof (cases "rx_match bare_re (strip g2) \<noteq> None")
          case True
          with Some Cons c2 show ?thesis
            by (simp add: parse_from_select.simps Let_def store_kept_refl)
        next
          case False
          note ih = "2.IH" [OF Some Cons c2 refl refl False]
          obtain out rels1 where p: "parse_query relations (strip g2) = (out, rels1)"
            by (cases "parse_query relations (strip g2)")
          show ?thesis
          proof (cases out)
            case (Inl e)
            with Some Cons c2 False p ih show ?thesis
              by (simp add: parse_from_select.simps [of relations query] Let_def)
          next
            case (Inr b)
            show ?thesis
            proof (cases b)
              case None
              have "store_kept relations (parse_binary rels1 query, rels1)"
                using ih p Inr by (simp add: store_kept_def)
              with Some Cons c2 False p Inr None show ?thesis
                by (simp add: parse_from_select.simps [of relations query] Let_def)
            next
              case (Some inner_result)
              have "store_kept relations (execute_on_result rels1 (Some inner_result)
                  (\<lambda>rs n. select_operation rs n (strip g1)))"
                using ih p Inr store_kept_execute by (auto intro: store_kept_trans)
              with \<open>rx_match (nested_re ''select'') query = Some gs\<close> Cons c2 False p Inr Some
              show ?thesis
                by (simp add: parse_from_select.simps [of relations query] Let_def)
            qed
          qed
        qed
      qed
    qed
  qed
qed

text \<open>
  C4, as the code has it. An evaluation never touches an entry of the store other than the
  one under the temporary name. When it returns, the store is the one before the call,
  except that an entry which was already there under the temporary name may be gone; so a
  store without such an entry is unchanged by every evaluation that returns. (An evaluation
  that raises can leave the staged relation behind.)
\<close>

theorem store_restored:
  assumes "parse_query relations q = (out, relations')"
  shows "(\<forall>n. n \<noteq> temp_name \<longrightarrow> relations' n = relations n) \<and>
         ((\<exists>r. out = Inr r) \<longrightarrow>
            relations' = relations \<or> relations' = relations(temp_name := None)) \<and>
         (relations temp_name = None \<longrightarrow> (\<exists>r. out = Inr r) \<longrightarrow> relations' = relations)"
proof -
  from store_kept_parse(1) [of relations q] assms
  have 1: "\<forall>n. n \<noteq> temp_name \<longrightarrow> relations' n = relations n"
    and 2: "(\<exists>r. out = Inr r) \<longrightarrow>
      relations' = relations \<or> relations' = relations(temp_name := None)"
    by (simp_all add: store_kept_def)
  have "relations(temp_name := None) = relations" if "relations temp_name = None"
    using that by (rule fun_upd_idem)
  with 1 2 show ?thesis by auto
qed

theorem store_restored_witness:
  "sample_store temp_name = None \<and>
   fst (parse_query sample_store ''select b>2 (project a, b (R))'') =
     Inr (Some \<lparr>attributes = [''a'', ''b''], tuples = [[PInt 1, PInt 3]]\<rparr>) \<and>
   snd (parse_query sample_store ''select b>2 (project a, b (R))'') = sample_store"
proof -
  let ?q = "''select b>2 (project a, b (R))''"
  have h: "sample_store temp_name = None" by (simp add: sample_store_def temp_name_def)
  have f: "fst (parse_query sample_store ?q) =
      Inr (Some \<lparr>attributes = [''a'', ''b''], tuples = [[PInt 1, PInt 3]]\<rparr>)"
    by code_simp
  have "parse_query sample_store ?q =
      (fst (parse_query sample_store ?q), snd (parse_query sample_store ?q))" by simp
  from store_restored [OF this] h f show ?thesis by simp
qed

theorem store_restored_counterexample:
  "(sample_store(temp_name \<mapsto> rel_bc)) temp_name = Some rel_bc \<and>
   fst (parse_query (sample_store(temp_name \<mapsto> rel_bc)) ''select b>2 (project a, b (R))'') =
     Inr (Some \<lparr>attributes = [''a'', ''b''], tuples = [[PInt 1, PInt 3]]\<rparr>) \<and>
   snd (parse_query (sample_store(temp_name \<mapsto> rel_bc)) ''select b>2 (project a, b (R))'')
     temp_name = None \<and>
   sample_store temp_name = None \<and>
   fst (parse_query sample_store ''select b>x (project a, b (R))'') = Inl TypeError \<and>
   snd (parse_query sample_store ''select b>x (project a, b (R))'') temp_name =
     Some \<lparr>attributes = [''a'', ''b''], tuples = [[PInt 1, PInt 2], [PInt 1, PInt 3]]\<rparr>"
  by code_simp

section \<open>Failures\<close>

lemma parse_query_no_keyword:
  assumes "\<not> prefix ''select'' (strip q)" "\<not> prefix ''project'' (strip q)"
    "\<not> prefix ''join'' (strip q)" "\<not> prefix ''union'' (strip q)"
    "\<not> prefix ''intersection'' (strip q)" "\<not> prefix ''difference'' (strip q)"
  shows "parse_query relations q = (Inr None, relations)"
  using parse_query_no_nested [of q relations] assms
  by (simp add: nested_re_needs_keyword parse_binary_no_keyword)

text \<open>
  C6, as the code has it. The three kinds of failure are reported by one and the same
  value, \<open>None\<close>: an operation on a name that the store does not have returns it, a set
  operation on two relations with different attribute sequences returns it, and a query
  that begins with none of the six keywords returns it, the store untouched.
\<close>

theorem failures_share_one_value:
  "(relations n = None \<longrightarrow>
      select_operation relations n c = Inr None \<and>
      project_operation relations n attrs = Inr None) \<and>
   (relations n1 = None \<or> relations n2 = None \<longrightarrow>
      join_operation relations n1 n2 = Inr None \<and>
      union_operation relations n1 n2 = None \<and>
      intersection_operation relations n1 n2 = None \<and>
      difference_operation relations n1 n2 = None) \<and>
   (relations n1 = Some r1 \<and> relations n2 = Some r2 \<and> attributes r1 \<noteq> attributes r2 \<longrightarrow>
      union_operation relations n1 n2 = None \<and>
      intersection_operation relations n1 n2 = None \<and>
      difference_operation relations n1 n2 = None) \<and>
   (\<not> prefix ''select'' (strip q) \<and> \<not> prefix ''project'' (strip q) \<and>
    \<not> prefix ''join'' (strip q) \<and> \<not> prefix ''union'' (strip q) \<and>
    \<not> prefix ''intersection'' (strip q) \<and> \<not> prefix ''difference'' (strip q) \<longrightarrow>
      parse_query relations q = (Inr None, relations))"
  using parse_query_no_keyword [of q relations]
  by (auto simp: select_operation_def project_operation_def join_operation_def
      union_operation_def intersection_operation_def difference_operation_def
      split: option.splits)

theorem failures_share_one_value_witness:
  "sample_store ''Nope'' = None \<and>
   select_operation sample_store ''Nope'' ''b>2'' = Inr None \<and>
   join_operation sample_store ''R'' ''Nope'' = Inr None \<and>
   union_operation sample_store ''R'' ''Nope'' = None \<and>
   sample_store ''R'' = Some rel_ab \<and> sample_store ''T'' = Some rel_bc \<and>
   attributes rel_ab \<noteq> attributes rel_bc \<and>
   union_operation sample_store ''R'' ''T'' = None \<and>
   \<not> prefix ''select'' (strip ''frobnicate R'') \<and>
   \<not> prefix ''project'' (strip ''frobnicate R'') \<and>
   \<not> prefix ''join'' (strip ''frobnicate R'') \<and>
   \<not> prefix ''union'' (strip ''frobnicate R'') \<and>
   \<not> prefix ''intersection'' (strip ''frobnicate R'') \<and>
   \<not> prefix ''difference'' (strip ''frobnicate R'') \<and>
   parse_query sample_store ''frobnicate R'' = (Inr None, sample_store)"
proof -
  have h1: "sample_store ''Nope'' = None" by (simp add: sample_store_def)
  have h2: "sample_store ''R'' = Some rel_ab" "sample_store ''T'' = Some rel_bc"
    by (simp_all add: sample_store_def)
  have h3: "attributes rel_ab \<noteq> attributes rel_bc" by (simp add: rel_ab_def rel_bc_def)
  have st: "strip ''frobnicate R'' = ''frobnicate R''"
    by (simp add: strip_def strip_with_def is_space_def)
  from failures_share_one_value [of sample_store "''Nope''" "''b>2''" "[]" "''R''" "''Nope''"
      rel_ab rel_bc "''frobnicate R''"]
    failures_share_one_value [of sample_store "''Nope''" "''b>2''" "[]" "''R''" "''T''"
      rel_ab rel_bc "''frobnicate R''"]
    h1 h2 h3
  show ?thesis by (simp add: st)
qed

theorem failures_share_one_value_counterexample:
  "sample_store ''Nope'' = None \<and>
   fst (parse_query sample_store ''join R Nope'') = Inr None \<and>
   attributes rel_ab \<noteq> attributes rel_bc \<and>
   fst (parse_query sample_store ''union R T'') = Inr None \<and>
   fst (parse_query sample_store ''frobnicate R'') = Inr None"
  by code_simp

section \<open>Exceptions\<close>


























end
